theory Spec2Isabelle
  imports Complex_Main "HOL-Library.Sublist"
begin

section \<open>Data model (types.ts)\<close>

text \<open>
  A JavaScript string is a sequence of UTF-16 code units. A code unit is modelled as a
  natural number and a string as a list of them; \<open>js\<close> turns an ASCII literal of the
  source into such a string.
\<close>

type_synonym code_unit = nat
type_synonym jsstring = "code_unit list"

definition js :: "string \<Rightarrow> jsstring" where
  "js s = map of_char s"

datatype SecurityVulnerabilityType =
    hardcoded_secret
  | sql_injection
  | xss_vulnerability
  | command_injection
  | path_traversal
  | insecure_random
  | weak_crypto
  | unsafe_eval
  | prototype_pollution
  | xxe_vulnerability
  | open_redirect
  | insecure_deserialization
  | sensitive_data_exposure
  | cors_misconfiguration
  | csrf_vulnerability
  | information_disclosure

datatype Severity = critical | high | medium | low

datatype Confidence = conf_high | conf_medium | conf_low

datatype RiskLevel = CRITICAL | HIGH | MEDIUM | LOW | CLEAN

section \<open>String primitives of the JavaScript runtime\<close>

text \<open>
  \<open>String.prototype.substring\<close>: both arguments are clamped to \<open>[0, length]\<close> and
  swapped when the first exceeds the second.
\<close>

definition substring :: "jsstring \<Rightarrow> int \<Rightarrow> int \<Rightarrow> jsstring" where
  "substring s a b =
     (let len = int (length s);
          finalStart = min (max a 0) len;
          finalEnd = min (max b 0) len;
          lo = min finalStart finalEnd;
          hi = max finalStart finalEnd
      in take (nat (hi - lo)) (drop (nat lo) s))"

text \<open>
  \<open>indexOf\<close> is the smallest index at which the search string occurs, \<open>lastIndexOf\<close>
  the greatest, and both are \<open>-1\<close> when it occurs nowhere.
\<close>

fun indexOf_from :: "jsstring \<Rightarrow> jsstring \<Rightarrow> int \<Rightarrow> int" where
  "indexOf_from pat [] k = (if pat = [] then k else - 1)"
| "indexOf_from pat (c # cs) k =
     (if prefix pat (c # cs) then k else indexOf_from pat cs (k + 1))"

definition indexOf :: "jsstring \<Rightarrow> jsstring \<Rightarrow> int" where
  "indexOf s pat = indexOf_from pat s 0"

fun lastIndexOf_from :: "jsstring \<Rightarrow> jsstring \<Rightarrow> int \<Rightarrow> int \<Rightarrow> int" where
  "lastIndexOf_from pat [] k found = (if pat = [] then k else found)"
| "lastIndexOf_from pat (c # cs) k found =
     lastIndexOf_from pat cs (k + 1) (if prefix pat (c # cs) then k else found)"

definition lastIndexOf :: "jsstring \<Rightarrow> jsstring \<Rightarrow> int" where
  "lastIndexOf s pat = lastIndexOf_from pat s 0 (- 1)"

text \<open>\<open>s.split(sep)\<close> for a separator of one code unit; the empty string gives \<open>['']\<close>.\<close>

fun js_split :: "jsstring \<Rightarrow> code_unit \<Rightarrow> jsstring list" where
  "js_split [] sep = [[]]"
| "js_split (c # cs) sep =
     (if c = sep then [] # js_split cs sep
      else (case js_split cs sep of
              [] \<Rightarrow> [[c]]
            | l # ls \<Rightarrow> (c # l) # ls))"

text \<open>
  White space and line terminators of ECMAScript: what \<open>trim\<close> strips and what the
  class escape \<open>\s\<close> matches.
\<close>

definition isWhiteSpace :: "code_unit \<Rightarrow> bool" where
  "isWhiteSpace c \<longleftrightarrow>
     (9 \<le> c \<and> c \<le> 13) \<or> c = 32 \<or> c = 160 \<or> c = 5760 \<or> (8192 \<le> c \<and> c \<le> 8202)
     \<or> c = 8232 \<or> c = 8233 \<or> c = 8239 \<or> c = 8287 \<or> c = 12288 \<or> c = 65279"

definition trim :: "jsstring \<Rightarrow> jsstring" where
  "trim s = rev (dropWhile isWhiteSpace (rev (dropWhile isWhiteSpace s)))"

text \<open>
  \<open>String.prototype.toLowerCase\<close> maps all of Unicode and is a parameter of the scan
  (see \<open>engine\<close> below). \<open>toLowerCase_ascii\<close> is the mapping on the ASCII letters, which
  the example engine uses.
\<close>

definition toLowerCase_ascii :: "jsstring \<Rightarrow> jsstring" where
  "toLowerCase_ascii s = map (\<lambda>c. if 65 \<le> c \<and> c \<le> 90 then c + 32 else c) s"

section \<open>Regular expressions of the JavaScript runtime\<close>

text \<open>
  The constructs the rule catalog uses: literal code units, character classes (with
  ranges and the escapes \<open>\s\<close>, \<open>\S\<close>, \<open>\w\<close>), sequence, alternation, greedy and lazy
  quantifiers with bounds, negative lookahead and the word boundary \<open>\b\<close>. Groups only
  delimit, since the scanner reads nothing but \<open>match.index\<close>.
\<close>

datatype class_atom =
    CUnit code_unit
  | CRange code_unit code_unit
  | CSpace
  | CNotSpace
  | CWord

datatype regex =
    Empty
  | Chr code_unit
  | Cls bool "class_atom list"
  | Seq regex regex
  | Alt regex regex
  | Rep nat "nat option" bool regex
  | NotAhead regex
  | WordB

text \<open>
  \<open>Canonicalize\<close> of the ECMAScript specification without the \<open>u\<close> flag maps a code
  unit to its upper case, except that a code unit outside ASCII never maps into ASCII.
  The catalog's patterns are ASCII and have no backreference, so the only comparisons
  made are against ASCII code units, and on those the mapping below decides the same.
\<close>

definition canonicalize :: "bool \<Rightarrow> code_unit \<Rightarrow> code_unit" where
  "canonicalize ignoreCase ch =
     (if ignoreCase \<and> 97 \<le> ch \<and> ch \<le> 122 then ch - 32 else ch)"

definition isWordChar :: "code_unit \<Rightarrow> bool" where
  "isWordChar c \<longleftrightarrow>
     (97 \<le> c \<and> c \<le> 122) \<or> (65 \<le> c \<and> c \<le> 90) \<or> (48 \<le> c \<and> c \<le> 57) \<or> c = 95"

fun in_atom :: "bool \<Rightarrow> class_atom \<Rightarrow> code_unit \<Rightarrow> bool" where
  "in_atom ic (CUnit a) ch = (canonicalize ic a = canonicalize ic ch)"
| "in_atom ic (CRange lo hi) ch =
     list_ex (\<lambda>a. canonicalize ic a = canonicalize ic ch) [lo ..< Suc hi]"
| "in_atom ic CSpace ch = isWhiteSpace ch"
| "in_atom ic CNotSpace ch = (\<not> isWhiteSpace ch)"
| "in_atom ic CWord ch = isWordChar ch"

text \<open>
  A matcher state is the code unit before the current position (none at the start of
  the input) and the input from the current position on. \<open>m\<close> returns every state in
  which the pattern can end, in the order in which the backtracking matcher of the
  ECMAScript specification tries them; the head of the list is the match it reports.
  In the quantifier, an iteration that consumed nothing once the minimum is reached is
  dropped, as step 2.a of \<open>RepeatMatcher\<close> does. The test after it, for an iteration
  that ends with more input left than it started with, is there for the termination
  proof alone: no end state of \<open>m\<close> is such (\<open>m_never_longer\<close> below).
\<close>

type_synonym mstate = "code_unit option \<times> jsstring"

fun rsize :: "regex \<Rightarrow> nat" where
  "rsize (Seq r1 r2) = Suc (rsize r1 + rsize r2)"
| "rsize (Alt r1 r2) = Suc (rsize r1 + rsize r2)"
| "rsize (Rep mn mx g r) = Suc (rsize r)"
| "rsize (NotAhead r) = Suc (rsize r)"
| "rsize r = 0"

fun rep_min :: "regex \<Rightarrow> nat" where
  "rep_min (Rep mn mx g r) = mn"
| "rep_min r = 0"

function m :: "bool \<Rightarrow> regex \<Rightarrow> mstate \<Rightarrow> mstate list" where
  "m ic Empty x = [x]"
| "m ic (Chr c) x =
     (case snd x of
        [] \<Rightarrow> []
      | a # as \<Rightarrow> if canonicalize ic c = canonicalize ic a then [(Some a, as)] else [])"
| "m ic (Cls invert atoms) x =
     (case snd x of
        [] \<Rightarrow> []
      | a # as \<Rightarrow> if list_ex (\<lambda>t. in_atom ic t a) atoms \<noteq> invert then [(Some a, as)] else [])"
| "m ic (Seq r1 r2) x = concat (map (m ic r2) (m ic r1 x))"
| "m ic (Alt r1 r2) x = m ic r1 x @ m ic r2 x"
| "m ic (Rep mn mx greedy r) x =
     (if mx = Some 0 then [x]
      else
        let zs = concat (map
              (\<lambda>y. if mn = 0 \<and> length (snd y) = length (snd x) then []
                   else if length (snd x) < length (snd y) then []
                   else m ic (Rep (mn - 1) (map_option (\<lambda>k. k - 1) mx) greedy r) y)
              (m ic r x))
        in if mn \<noteq> 0 then zs else if greedy then zs @ [x] else x # zs)"
| "m ic (NotAhead r) x = (if m ic r x = [] then [x] else [])"
| "m ic WordB x =
     (let a = (case fst x of None \<Rightarrow> False | Some c \<Rightarrow> isWordChar c);
          b = (case snd x of [] \<Rightarrow> False | c # cs \<Rightarrow> isWordChar c)
      in if a \<noteq> b then [x] else [])"
  by pat_completeness auto
termination
  by (relation "measures [\<lambda>(ic, r, x). rsize r, \<lambda>(ic, r, x). length (snd x),
                           \<lambda>(ic, r, x). rep_min r]") auto


text \<open>
  A \<open>RegExp\<close> object: its pattern, the flags \<open>i\<close> and \<open>g\<close>, and the mutable
  \<open>lastIndex\<close>.
\<close>

record RegExp =
  source :: regex
  ignoreCase :: bool
  global :: bool
  lastIndex :: nat

text \<open>
  The loop of \<open>RegExpBuiltinExec\<close>: try the pattern at the current position and move on
  by one code unit when it fails there, until the end of the input has been tried.
  The result is the index where the match starts and the index where it ends.
\<close>

fun match_from :: "bool \<Rightarrow> regex \<Rightarrow> jsstring \<Rightarrow> code_unit option \<Rightarrow> jsstring \<Rightarrow> (nat \<times> nat) option" where
  "match_from ic r S prev [] =
     (case m ic r (prev, []) of
        y # ys \<Rightarrow> Some (length S, length S - length (snd y))
      | [] \<Rightarrow> None)"
| "match_from ic r S prev (c # cs) =
     (case m ic r (prev, c # cs) of
        y # ys \<Rightarrow> Some (length S - length (c # cs), length S - length (snd y))
      | [] \<Rightarrow> match_from ic r S (Some c) cs)"

text \<open>
  \<open>R.exec(S)\<close>: the result (\<open>None\<close> for \<open>null\<close>) and the object with its new
  \<open>lastIndex\<close>. With the \<open>g\<close> flag the search starts at \<open>lastIndex\<close>, a match sets
  \<open>lastIndex\<close> to its end and a failure sets it to 0; without it the search starts
  at 0 and \<open>lastIndex\<close> is left alone.
\<close>

definition exec :: "RegExp \<Rightarrow> jsstring \<Rightarrow> (nat \<times> nat) option \<times> RegExp" where
  "exec R S =
     (let i = (if global R then lastIndex R else 0)
      in if length S < i then (None, if global R then R\<lparr>lastIndex := 0\<rparr> else R)
         else (case match_from (ignoreCase R) (source R) S
                      (if i = 0 then None else Some (S ! (i - 1))) (drop i S) of
                 None \<Rightarrow> (None, if global R then R\<lparr>lastIndex := 0\<rparr> else R)
               | Some (index, e) \<Rightarrow>
                   (Some (index, e), if global R then R\<lparr>lastIndex := e\<rparr> else R)))"

section \<open>The rule catalog (securityScanner.ts, initializePatterns)\<close>

record VulnerabilityPattern =
  type :: SecurityVulnerabilityType
  severity :: Severity
  pattern :: RegExp
  message :: jsstring
  description :: jsstring
  recommendation :: jsstring
  cweId :: "jsstring option"
  owaspCategory :: "jsstring option"
  confidence :: Confidence

text \<open>Shorthands for writing the regular-expression literals of the source.\<close>

fun lit :: "string \<Rightarrow> regex" where
  "lit [] = Empty"
| "lit [c] = Chr (of_char c)"
| "lit (c # cs) = Seq (Chr (of_char c)) (lit cs)"

fun seqs :: "regex list \<Rightarrow> regex" where
  "seqs [] = Empty"
| "seqs [r] = r"
| "seqs (r # rs) = Seq r (seqs rs)"

fun alts :: "regex list \<Rightarrow> regex" where
  "alts [] = Empty"
| "alts [r] = r"
| "alts (r # rs) = Alt r (alts rs)"

definition units :: "string \<Rightarrow> class_atom list" where
  "units s = map (\<lambda>c. CUnit (of_char c)) s"

definition star :: "regex \<Rightarrow> regex" where
  "star r = Rep 0 None True r"

definition lazy_star :: "regex \<Rightarrow> regex" where
  "lazy_star r = Rep 0 None False r"

definition plus :: "regex \<Rightarrow> regex" where
  "plus r = Rep 1 None True r"

definition opt :: "regex \<Rightarrow> regex" where
  "opt r = Rep 0 (Some 1) True r"

text \<open>\<open>\s*\<close>, \<open>['"]\<close> (code units 39 and 34) and \<open>[_-]?\<close>.\<close>

definition ws :: regex where
  "ws = star (Cls False [CSpace])"

definition quote :: regex where
  "quote = Cls False [CUnit 39, CUnit 34]"

definition sep :: regex where
  "sep = opt (Cls False (units ''_-''))"

text \<open>\<open>req\.(?:body|query|params)\<close> and \<open>(?:req\.(?:body|query|params)|input|userInput)\<close>.\<close>

definition req :: regex where
  "req = Seq (lit ''req.'') (alts [lit ''body'', lit ''query'', lit ''params''])"

definition user_input :: regex where
  "user_input = alts [req, lit ''input'', lit ''userInput'']"

definition regexp :: "regex \<Rightarrow> bool \<Rightarrow> RegExp" where
  "regexp r i = \<lparr>source = r, ignoreCase = i, global = True, lastIndex = 0\<rparr>"

definition secret_re :: regex where
  "secret_re = seqs
     [alts [lit ''password'', lit ''passwd'', lit ''pwd'', lit ''secret'', lit ''token'',
            seqs [lit ''api'', sep, lit ''key''], lit ''apikey'',
            seqs [lit ''access'', sep, lit ''key''], seqs [lit ''private'', sep, lit ''key''],
            seqs [lit ''client'', sep, lit ''secret''], seqs [lit ''auth'', sep, lit ''token'']],
      ws, Cls False (units ''=:''), ws, quote,
      NotAhead (alts [lit ''process.env'', lit ''config.'', lit ''CONFIG.'', lit ''import.'',
                      lit ''require('', lit ''<%='', lit ''{{'', lit ''%{'']),
      Rep 8 None True (Cls True [CUnit 39, CUnit 34, CUnit 10]),
      quote]"

definition aws_re :: regex where
  "aws_re = alts [lit ''aws_access_key_id'', lit ''aws_secret_access_key'',
                  Seq (lit ''AKIA'')
                      (Rep 16 (Some 16) True (Cls False [CRange 48 57, CRange 65 90]))]"

definition sql_concat_re :: regex where
  "sql_concat_re = seqs
     [alts [lit ''execute'', lit ''query'', lit ''exec'', lit ''executeSql'', lit ''rawQuery''],
      ws, lit ''('', ws, opt (Cls False [CUnit 96, CUnit 39, CUnit 34]), ws,
      alts [lit ''SELECT'', lit ''INSERT'', lit ''UPDATE'', lit ''DELETE'', lit ''DROP'',
            lit ''CREATE''],
      lazy_star (Cls False [CSpace, CNotSpace]),
      lit ''+'', ws,
      alts [plus (Cls False [CWord]), req]]"

definition sql_template_re :: regex where
  "sql_template_re = seqs
     [lit ''${'', star (Cls True (units ''}'')),
      alts [req,
            Seq (lit ''request.'') (alts [lit ''body'', lit ''query'', lit ''params'']),
            lit ''input'', lit ''userInput''],
      star (Cls True (units ''}'')), lit ''}'']"

definition innerHTML_re :: regex where
  "innerHTML_re = seqs
     [lit ''.innerHTML'', ws, lit ''='', ws,
      NotAhead (Seq ws (Cls False [CUnit 39, CUnit 34, CUnit 34]))]"

definition dangerously_re :: regex where
  "dangerously_re = seqs
     [lit ''dangerouslySetInnerHTML'', ws, lit ''='', ws, lit ''{'', ws, opt (lit ''{''), ws,
      lit ''__html:'']"

definition command_re :: regex where
  "command_re = seqs
     [alts [lit ''exec'', lit ''execSync'', lit ''spawn'', lit ''execFile'',
            lit ''child_process''],
      ws, lit ''('', star (Cls True (units '')'')),
      alts [lit ''+'', Chr 96, lit ''${''],
      star (Cls True (units '')'')),
      user_input]"

definition path_re :: regex where
  "path_re = seqs
     [alts [lit ''readFile'', lit ''readFileSync'', lit ''writeFile'', lit ''writeFileSync'',
            lit ''createReadStream'', lit ''createWriteStream''],
      ws, lit ''('', star (Cls True (units '')'')),
      user_input,
      alts [lit ''.'', lit ''+'', lit ''['']]"

definition eval_re :: regex where
  "eval_re = seqs [WordB, lit ''eval'', ws, lit ''('']"

definition function_re :: regex where
  "function_re = seqs [lit ''new'', plus (Cls False [CSpace]), lit ''Function'', ws, lit ''('']"

definition random_re :: regex where
  "random_re = seqs [lit ''Math.random'', ws, lit ''()'']"

definition crypto_re :: regex where
  "crypto_re = alts
     [lit ''createCipher'', lit ''createDecipher'',
      seqs [lit ''createHash'', ws, lit ''('', ws, quote, lit ''md5'', quote],
      seqs [lit ''createHash'', ws, lit ''('', ws, quote, lit ''sha1'', quote]]"

definition proto_re :: regex where
  "proto_re = alts
     [seqs [alts [lit ''Object'', lit ''obj'', plus (Cls False [CWord])],
            lit ''['', quote, lit ''__proto__'', quote, lit '']''],
      seqs [lit ''['', quote, lit ''constructor'', quote, lit '']'',
            lit ''['', quote, lit ''prototype'', quote, lit '']'']]"

definition redirect_re :: regex where
  "redirect_re = seqs
     [alts [lit ''window.location'', lit ''location.href'', lit ''location.replace''],
      ws, lit ''='', ws, user_input]"

definition console_re :: regex where
  "console_re = seqs
     [lit ''console.log'', ws, lit ''('', star (Cls True (units '')'')),
      alts [lit ''password'', lit ''token'', lit ''secret'', lit ''creditCard'', lit ''ssn'',
            lit ''apiKey'']]"

definition cors_re :: regex where
  "cors_re = seqs
     [quote, lit ''Access-Control-Allow-Origin'', quote, ws, opt (Cls False (units '',:'')), ws,
      opt quote, lit ''*'', opt quote]"

definition stack_re :: regex where
  "stack_re = seqs [lit ''.stack'', ws, lit '')'']"

definition entry ::
  "SecurityVulnerabilityType \<Rightarrow> Severity \<Rightarrow> RegExp \<Rightarrow> string \<Rightarrow> string \<Rightarrow> string \<Rightarrow>
   string \<Rightarrow> string \<Rightarrow> Confidence \<Rightarrow> VulnerabilityPattern" where
  "entry t s p msg d rec cwe owasp c =
     \<lparr>type = t, severity = s, pattern = p, message = js msg, description = js d,
      recommendation = js rec, cweId = Some (js cwe), owaspCategory = Some (js owasp),
      confidence = c\<rparr>"

definition initializePatterns :: "VulnerabilityPattern list" where
  "initializePatterns =
    [entry hardcoded_secret critical (regexp secret_re True)
       ''Hardcoded secret detected''
       ''Sensitive credentials found directly in source code''
       ''Use environment variables or a secure secret management system''
       ''CWE-798'' ''A02:2021 - Cryptographic Failures'' conf_high,
     entry hardcoded_secret critical (regexp aws_re True)
       ''AWS credentials hardcoded''
       ''AWS access keys found in source code''
       ''Use AWS IAM roles or AWS Secrets Manager''
       ''CWE-798'' ''A02:2021 - Cryptographic Failures'' conf_high,
     entry sql_injection critical (regexp sql_concat_re True)
       ''SQL injection vulnerability''
       ''SQL query constructed using string concatenation with user input''
       ''Use parameterized queries or prepared statements''
       ''CWE-89'' ''A03:2021 - Injection'' conf_high,
     entry sql_injection critical (regexp sql_template_re False)
       ''Potential SQL injection via template literals''
       ''SQL query uses template literals with user input''
       ''Use parameterized queries instead of template literals''
       ''CWE-89'' ''A03:2021 - Injection'' conf_medium,
     entry xss_vulnerability high (regexp innerHTML_re False)
       ''XSS vulnerability via innerHTML''
       ''Setting innerHTML with potentially unsafe content''
       ''Use textContent or sanitize HTML with DOMPurify''
       ''CWE-79'' ''A03:2021 - Injection'' conf_medium,
     entry xss_vulnerability high (regexp dangerously_re False)
       ''React XSS vulnerability''
       ''Using dangerouslySetInnerHTML without sanitization''
       ''Sanitize HTML content or use safer alternatives''
       ''CWE-79'' ''A03:2021 - Injection'' conf_medium,
     entry command_injection critical (regexp command_re True)
       ''Command injection vulnerability''
       ''Executing system commands with unsanitized user input''
       ''Avoid executing user input; use allowlists or safer alternatives''
       ''CWE-78'' ''A03:2021 - Injection'' conf_high,
     entry path_traversal high (regexp path_re True)
       ''Path traversal vulnerability''
       ''File operations with unsanitized user-provided paths''
       ''Validate and sanitize file paths; use allowlists''
       ''CWE-22'' ''A01:2021 - Broken Access Control'' conf_high,
     entry unsafe_eval critical (regexp eval_re False)
       ''Unsafe use of eval()''
       ''eval() can execute arbitrary code and is extremely dangerous''
       ''Remove eval() and use safer alternatives like JSON.parse()''
       ''CWE-95'' ''A03:2021 - Injection'' conf_high,
     entry unsafe_eval critical (regexp function_re False)
       ''Unsafe use of Function constructor''
       ''Function constructor can execute arbitrary code like eval()''
       ''Avoid dynamic code execution; use predefined functions''
       ''CWE-95'' ''A03:2021 - Injection'' conf_high,
     entry insecure_random medium (regexp random_re False)
       ''Insecure random number generation''
       ''Math.random() is not cryptographically secure''
       ''Use crypto.randomBytes() for security-sensitive operations''
       ''CWE-330'' ''A02:2021 - Cryptographic Failures'' conf_medium,
     entry weak_crypto high (regexp crypto_re True)
       ''Weak cryptographic algorithm''
       ''Using deprecated or weak cryptographic methods (MD5, SHA1, DES)''
       ''Use strong algorithms: AES-256-GCM, SHA-256, or better''
       ''CWE-327'' ''A02:2021 - Cryptographic Failures'' conf_high,
     entry prototype_pollution high (regexp proto_re False)
       ''Potential prototype pollution''
       ''Modifying __proto__ or constructor.prototype can lead to security issues''
       ''Avoid dynamic property access on objects; use Object.create(null)''
       ''CWE-1321'' ''A08:2021 - Software and Data Integrity Failures'' conf_high,
     entry open_redirect medium (regexp redirect_re True)
       ''Open redirect vulnerability''
       ''Redirecting to user-controlled URLs without validation''
       ''Validate redirect URLs against an allowlist''
       ''CWE-601'' ''A01:2021 - Broken Access Control'' conf_medium,
     entry sensitive_data_exposure high (regexp console_re True)
       ''Sensitive data in console logs''
       ''Logging sensitive information to console''
       ''Remove sensitive data from logs or use secure logging''
       ''CWE-532'' ''A04:2021 - Insecure Design'' conf_high,
     entry cors_misconfiguration medium (regexp cors_re True)
       ''Insecure CORS configuration''
       ''CORS configured to allow all origins (*)''
       ''Specify allowed origins explicitly; avoid wildcard''
       ''CWE-942'' ''A05:2021 - Security Misconfiguration'' conf_high,
     entry information_disclosure low (regexp stack_re False)
       ''Stack trace exposure''
       ''Exposing error stack traces can reveal sensitive information''
       ''Log stack traces internally; show generic errors to users''
       ''CWE-209'' ''A05:2021 - Security Misconfiguration'' conf_low]"


section \<open>The comment filter (securityScanner.ts, isInComment)\<close>

definition isInComment :: "jsstring \<Rightarrow> int \<Rightarrow> bool" where
  "isInComment line column =
     (let beforeColumn = substring line 0 column;
          singleCommentIndex = indexOf beforeColumn (js ''//'')
      in if singleCommentIndex \<noteq> - 1 \<and> singleCommentIndex < column then True
         else
           let multiCommentStart = lastIndexOf beforeColumn (js ''/*'');
               multiCommentEnd = lastIndexOf beforeColumn (js ''*/'')
           in if multiCommentStart \<noteq> - 1 \<and> multiCommentStart > multiCommentEnd then True
              else False)"

section \<open>Issues and scan results (types.ts)\<close>

text \<open>
  \<open>IssueNoPath\<close> is \<open>Omit<SecurityIssue, 'filePath' | 'relativePath'>\<close>, what
  \<open>findPatternMatches\<close> builds; \<open>SecurityIssue\<close> adds the two paths.
\<close>

record ProjectFile =
  filePath :: jsstring
  relativePath :: jsstring

record IssueNoPath =
  type :: SecurityVulnerabilityType
  severity :: Severity
  line :: int
  column :: int
  code :: jsstring
  message :: jsstring
  description :: jsstring
  recommendation :: jsstring
  cweId :: "jsstring option"
  owaspCategory :: "jsstring option"
  confidence :: Confidence

record SecurityIssue = IssueNoPath +
  filePath :: jsstring
  relativePath :: jsstring

section \<open>The match locator (securityScanner.ts, findPatternMatches)\<close>

text \<open>
  The \<open>while\<close> loop of \<open>findPatternMatches\<close>, from one call of \<open>exec\<close> to the next.
  \<open>R\<close> is the regular-expression object of the rule in its current state. The loop
  need not end, so its result is an option: \<open>None\<close> is a loop that runs forever.
\<close>

partial_function (option) findLoop ::
  "jsstring \<Rightarrow> jsstring list \<Rightarrow> VulnerabilityPattern \<Rightarrow> RegExp \<Rightarrow> IssueNoPath list \<Rightarrow>
   (IssueNoPath list \<times> RegExp) option" where
  "findLoop content lines rule R issues =
     (case exec R content of
        (None, R') \<Rightarrow> Some (issues, R')
      | (Some (index, e), R') \<Rightarrow>
          (let beforeMatch = substring content 0 (int index);
               lineNumber = int (length (js_split beforeMatch 10));
               lineContent = (if nat (lineNumber - 1) < length lines
                              then lines ! nat (lineNumber - 1) else []);
               lineStart = lastIndexOf beforeMatch [10] + 1;
               column = int index - lineStart + 1
           in if isInComment lineContent column
              then findLoop content lines rule R' issues
              else findLoop content lines rule R'
                     (issues @
                      [\<lparr>type = VulnerabilityPattern.type rule,
                        severity = VulnerabilityPattern.severity rule,
                        line = lineNumber,
                        column = column,
                        code = trim lineContent,
                        message = VulnerabilityPattern.message rule,
                        description = VulnerabilityPattern.description rule,
                        recommendation = VulnerabilityPattern.recommendation rule,
                        cweId = VulnerabilityPattern.cweId rule,
                        owaspCategory = VulnerabilityPattern.owaspCategory rule,
                        confidence = VulnerabilityPattern.confidence rule\<rparr>])))"

text \<open>
  \<open>findPatternMatches\<close> resets \<open>lastIndex\<close> and runs the loop. It returns the issues and
  the rule, whose regular-expression object the loop has changed.
\<close>

definition findPatternMatches ::
  "jsstring \<Rightarrow> jsstring list \<Rightarrow> VulnerabilityPattern \<Rightarrow>
   (IssueNoPath list \<times> VulnerabilityPattern) option" where
  "findPatternMatches content lines rule =
     (case findLoop content lines rule ((pattern rule)\<lparr>lastIndex := 0\<rparr>) [] of
        None \<Rightarrow> None
      | Some (issues, R') \<Rightarrow> Some (issues, rule\<lparr>pattern := R'\<rparr>))"

section \<open>The file scanner (securityScanner.ts, scanFile)\<close>

text \<open>
  The world outside the scanner during one scan: the files the collector returns, what
  \<open>fs.promises.readFile\<close> gives for a path (an error when it throws), \<open>path.extname\<close>,
  the two readings of \<open>performance.now()\<close> and the date at the end.
\<close>

datatype exn = ReadError | RangeError

record env =
  collectProjectFiles :: "ProjectFile list"
  readFile :: "jsstring \<Rightarrow> exn + jsstring"
  extname :: "jsstring \<Rightarrow> jsstring"
  startTime :: real
  endTime :: real
  now :: real

text \<open>
  The JavaScript engine that runs the scanner. A call \<open>issues.push(...xs)\<close> passes every
  element of \<open>xs\<close> as an argument, and the engine throws a RangeError when that is more
  arguments than it takes at that point. How many it takes is the engine's affair:
  \<open>spreadThrows eng site n\<close> says that the call at \<open>site\<close> throws when it spreads \<open>n\<close>
  arguments, the two sites being the \<open>push\<close> of a rule's matches in \<open>scanFile\<close> and the
  \<open>push\<close> of a file's issues in \<open>scanWorkspace\<close>. The other field is
  \<open>String.prototype.toLowerCase\<close>. Nothing is assumed of either.
\<close>

datatype call_site = push_matches | push_fileIssues

record engine =
  toLowerCase :: "jsstring \<Rightarrow> jsstring"
  spreadThrows :: "call_site \<Rightarrow> nat \<Rightarrow> bool"

text \<open>\<open>xs.push(...ys)\<close> at a call site: the array with \<open>ys\<close> appended, or a RangeError.\<close>

definition push :: "engine \<Rightarrow> call_site \<Rightarrow> 'a list \<Rightarrow> 'a list \<Rightarrow> exn + 'a list" where
  "push eng site xs ys =
     (if spreadThrows eng site (length ys) then Inl RangeError else Inr (xs @ ys))"

text \<open>
  The \<open>for\<close> loop of \<open>scanFile\<close> over the rules, which returns the rules as it leaves
  them. When the \<open>push\<close> of a rule's matches throws, the \<open>catch\<close> of \<open>scanFile\<close> ends
  the loop: the issues collected before are what \<open>scanFile\<close> returns, and the rules
  behind this one are not run.
\<close>

fun scanRules ::
  "engine \<Rightarrow> jsstring \<Rightarrow> jsstring list \<Rightarrow> jsstring \<Rightarrow> jsstring \<Rightarrow>
   VulnerabilityPattern list \<Rightarrow> SecurityIssue list \<Rightarrow>
   (SecurityIssue list \<times> VulnerabilityPattern list) option" where
  "scanRules eng content lines fp rp [] issues = Some (issues, [])"
| "scanRules eng content lines fp rp (rule # rules) issues =
     (case findPatternMatches content lines rule of
        None \<Rightarrow> None
      | Some (matches, rule') \<Rightarrow>
          (case push eng push_matches issues
                  (map (\<lambda>match. IssueNoPath.extend match
                                 \<lparr>filePath = fp, relativePath = rp\<rparr>) matches) of
             Inl error \<Rightarrow> Some (issues, rule' # rules)
           | Inr pushed \<Rightarrow>
               (case scanRules eng content lines fp rp rules pushed of
                  None \<Rightarrow> None
                | Some (issues', rules') \<Rightarrow> Some (issues', rule' # rules'))))"

text \<open>
  \<open>scanFile\<close> returns normally with its issues or throws (\<open>Inl\<close>); beside that result
  stand the rules as the call leaves them. Its \<open>try\<close> holds the whole body, so an error
  of \<open>readFile\<close> and a RangeError of the \<open>push\<close> are both caught inside, and the
  issues collected until then are returned.
\<close>

definition scanFile ::
  "engine \<Rightarrow> env \<Rightarrow> VulnerabilityPattern list \<Rightarrow> jsstring \<Rightarrow> jsstring \<Rightarrow>
   ((exn + SecurityIssue list) \<times> VulnerabilityPattern list) option" where
  "scanFile eng world rules fp rp =
     (case readFile world fp of
        Inl error \<Rightarrow> Some (Inr [], rules)
      | Inr content \<Rightarrow>
          (case scanRules eng content (js_split content 10) fp rp rules [] of
             None \<Rightarrow> None
           | Some (issues, rules') \<Rightarrow> Some (Inr issues, rules')))"

section \<open>The workspace orchestrator (securityScanner.ts, scanWorkspace)\<close>

record SecurityScanner =
  vulnerabilityPatterns :: "VulnerabilityPattern list"

definition new_SecurityScanner :: SecurityScanner where
  "new_SecurityScanner = \<lparr>vulnerabilityPatterns = initializePatterns\<rparr>"

text \<open>
  The \<open>for\<close> loop over the files: the issues, \<open>filesScanned\<close> and the rules are carried
  along. When \<open>scanFile\<close> throws, or the \<open>push\<close> of the file's issues does, the
  \<open>catch\<close> logs and the loop goes on to the next file: the file is not counted and, in
  the second case, its issues are lost.
\<close>

fun scanFiles ::
  "engine \<Rightarrow> env \<Rightarrow> ProjectFile list \<Rightarrow> SecurityIssue list \<Rightarrow> int \<Rightarrow>
   VulnerabilityPattern list \<Rightarrow> (SecurityIssue list \<times> int \<times> VulnerabilityPattern list) option" where
  "scanFiles eng world [] issues filesScanned rules = Some (issues, filesScanned, rules)"
| "scanFiles eng world (file # files) issues filesScanned rules =
     (case scanFile eng world rules (ProjectFile.filePath file)
             (ProjectFile.relativePath file) of
        None \<Rightarrow> None
      | Some (Inr fileIssues, rules') \<Rightarrow>
          (case push eng push_fileIssues issues fileIssues of
             Inl error \<Rightarrow> scanFiles eng world files issues filesScanned rules'
           | Inr pushed \<Rightarrow> scanFiles eng world files pushed (filesScanned + 1) rules')
      | Some (Inl error, rules') \<Rightarrow>
          scanFiles eng world files issues filesScanned rules')"

record SecurityScanResult =
  issues :: "SecurityIssue list"
  filesScanned :: int
  totalIssues :: int
  criticalCount :: int
  highCount :: int
  mediumCount :: int
  lowCount :: int
  scanDuration :: real
  timestamp :: real

definition jstsExtensions :: "jsstring list" where
  "jstsExtensions = [js ''.js'', js ''.jsx'', js ''.ts'', js ''.tsx'', js ''.mjs'', js ''.cjs'']"

definition scanWorkspace ::
  "engine \<Rightarrow> SecurityScanner \<Rightarrow> env \<Rightarrow> (SecurityScanResult \<times> SecurityScanner) option" where
  "scanWorkspace eng this world =
     (let files = collectProjectFiles world;
          jstsFiles = filter
            (\<lambda>f. let ext = toLowerCase eng (extname world (ProjectFile.filePath f))
                 in ext \<in> set jstsExtensions) files
      in case scanFiles eng world jstsFiles [] 0 (vulnerabilityPatterns this) of
           None \<Rightarrow> None
         | Some (found, scanned, rules') \<Rightarrow>
             Some (\<lparr>issues = found,
                    filesScanned = scanned,
                    totalIssues = int (length found),
                    criticalCount = int (length (filter (\<lambda>i. severity i = critical) found)),
                    highCount = int (length (filter (\<lambda>i. severity i = high) found)),
                    mediumCount = int (length (filter (\<lambda>i. severity i = medium) found)),
                    lowCount = int (length (filter (\<lambda>i. severity i = low) found)),
                    scanDuration = endTime world - startTime world,
                    timestamp = now world\<rparr>,
                   this\<lparr>vulnerabilityPatterns := rules'\<rparr>))"

section \<open>The risk classifier (calculateRiskLevel)\<close>

definition calculateRiskLevel :: "SecurityScanResult \<Rightarrow> RiskLevel" where
  "calculateRiskLevel result =
     (if criticalCount result > 0 then CRITICAL
      else if highCount result \<ge> 5 then HIGH
      else if highCount result > 0 \<or> mediumCount result \<ge> 10 then MEDIUM
      else if mediumCount result > 0 \<or> lowCount result > 0 then LOW
      else CLEAN)"


text \<open>
  The decision table as the specification words it: an ordered list of conditions, each
  with its level, of which the first that holds decides, and \<open>CLEAN\<close> when none does.
\<close>

definition riskTable :: "((SecurityScanResult \<Rightarrow> bool) \<times> RiskLevel) list" where
  "riskTable =
     [(\<lambda>r. criticalCount r > 0, CRITICAL),
      (\<lambda>r. highCount r \<ge> 5, HIGH),
      (\<lambda>r. highCount r > 0 \<or> mediumCount r \<ge> 10, MEDIUM),
      (\<lambda>r. mediumCount r > 0 \<or> lowCount r > 0, LOW)]"

fun firstMatch :: "(('a \<Rightarrow> bool) \<times> 'b) list \<Rightarrow> 'b \<Rightarrow> 'a \<Rightarrow> 'b" where
  "firstMatch [] otherwise x = otherwise"
| "firstMatch ((cond, v) # rest) otherwise x =
     (if cond x then v else firstMatch rest otherwise x)"


section \<open>Notions used to state the properties\<close>

text \<open>
  The position that the loop of \<open>findPatternMatches\<close> computes for a match starting at
  \<open>index\<close>: its line number, the text of that line, its column; whether the comment
  filter drops the match; and the issue the loop builds for it.
\<close>

definition lineNumber_of :: "jsstring \<Rightarrow> nat \<Rightarrow> int" where
  "lineNumber_of content index = int (length (js_split (substring content 0 (int index)) 10))"

definition lineContent_of :: "jsstring \<Rightarrow> jsstring list \<Rightarrow> nat \<Rightarrow> jsstring" where
  "lineContent_of content lines index =
     (if nat (lineNumber_of content index - 1) < length lines
      then lines ! nat (lineNumber_of content index - 1) else [])"

definition column_of :: "jsstring \<Rightarrow> nat \<Rightarrow> int" where
  "column_of content index =
     int index - (lastIndexOf (substring content 0 (int index)) [10] + 1) + 1"

definition suppressed :: "jsstring \<Rightarrow> jsstring list \<Rightarrow> nat \<Rightarrow> bool" where
  "suppressed content lines index =
     isInComment (lineContent_of content lines index) (column_of content index)"

definition mk_issue :: "jsstring \<Rightarrow> jsstring list \<Rightarrow> VulnerabilityPattern \<Rightarrow> nat \<Rightarrow> IssueNoPath" where
  "mk_issue content lines rule index =
     \<lparr>type = VulnerabilityPattern.type rule,
      severity = VulnerabilityPattern.severity rule,
      line = lineNumber_of content index,
      column = column_of content index,
      code = trim (lineContent_of content lines index),
      message = VulnerabilityPattern.message rule,
      description = VulnerabilityPattern.description rule,
      recommendation = VulnerabilityPattern.recommendation rule,
      cweId = VulnerabilityPattern.cweId rule,
      owaspCategory = VulnerabilityPattern.owaspCategory rule,
      confidence = VulnerabilityPattern.confidence rule\<rparr>"

definition emitted :: "jsstring \<Rightarrow> jsstring list \<Rightarrow> VulnerabilityPattern \<Rightarrow> nat \<Rightarrow> IssueNoPath list" where
  "emitted content lines rule index =
     (if suppressed content lines index then [] else [mk_issue content lines rule index])"

text \<open>
  \<open>visits content R i\<close>: the loop, entered with the regular-expression object in state
  \<open>R\<close>, reaches an iteration in which \<open>exec\<close> reports a match starting at \<open>i\<close>.
\<close>

inductive visits :: "jsstring \<Rightarrow> RegExp \<Rightarrow> nat \<Rightarrow> bool" for content where
  first: "exec R content = (Some (i, e), R') \<Longrightarrow> visits content R i"
| later: "exec R content = (Some (i, e), R') \<Longrightarrow> visits content R' j \<Longrightarrow> visits content R j"

text \<open>A rule with the \<open>lastIndex\<close> of its regular-expression object set back to 0.\<close>

definition reset :: "VulnerabilityPattern \<Rightarrow> VulnerabilityPattern" where
  "reset rule = rule\<lparr>pattern := (pattern rule)\<lparr>lastIndex := 0\<rparr>\<rparr>"

text \<open>The spread \<open>{...match, filePath, relativePath}\<close> of \<open>scanFile\<close>.\<close>

definition with_paths :: "jsstring \<Rightarrow> jsstring \<Rightarrow> IssueNoPath \<Rightarrow> SecurityIssue" where
  "with_paths fp rp = (\<lambda>match. IssueNoPath.extend match \<lparr>filePath = fp, relativePath = rp\<rparr>)"

text \<open>A lower bound on the number of code units that a match of a pattern consumes.\<close>

fun min_len :: "regex \<Rightarrow> nat" where
  "min_len Empty = 0"
| "min_len (Chr c) = 1"
| "min_len (Cls invert atoms) = 1"
| "min_len (Seq r1 r2) = min_len r1 + min_len r2"
| "min_len (Alt r1 r2) = min (min_len r1) (min_len r2)"
| "min_len (Rep mn mx greedy r) =
     (case mx of None \<Rightarrow> mn | Some k \<Rightarrow> min mn k) * min_len r"
| "min_len (NotAhead r) = 0"
| "min_len WordB = 0"

text \<open>A path whose lowercased extension is in the list of \<open>scanWorkspace\<close>.\<close>

definition isJsTs :: "engine \<Rightarrow> env \<Rightarrow> jsstring \<Rightarrow> bool" where
  "isJsTs eng world path \<longleftrightarrow> toLowerCase eng (extname world path) \<in> set jstsExtensions"

text \<open>
  A file that the loop of \<open>scanWorkspace\<close> counts when it scans it with the given rules:
  \<open>scanFile\<close> returns its issues and the \<open>push\<close> of them does not throw.
\<close>

definition counted :: "engine \<Rightarrow> env \<Rightarrow> VulnerabilityPattern list \<Rightarrow> ProjectFile \<Rightarrow> bool" where
  "counted eng world rules f \<longleftrightarrow>
     (case scanFile eng world rules (ProjectFile.filePath f) (ProjectFile.relativePath f) of
        Some (Inr fileIssues, rules') \<Rightarrow>
          \<not> spreadThrows eng push_fileIssues (length fileIssues)
      | _ \<Rightarrow> False)"

text \<open>
  \<open>marker_at pat s k\<close>: the string \<open>pat\<close> occurs in \<open>s\<close> at index \<open>k\<close> (counted from 0).
\<close>

definition marker_at :: "jsstring \<Rightarrow> jsstring \<Rightarrow> nat \<Rightarrow> bool" where
  "marker_at pat s k \<longleftrightarrow> prefix pat (drop k s)"

text \<open>
  Block comments as the specification words them for the comment filter, across lines:
  \<open>block_state\<close> reads a line from left to right, entering a comment at an opener
  and leaving it at the closer, and \<open>in_open_block lines n\<close> says that the line of index
  \<open>n\<close> (counted from 0) starts inside a comment opened on a line before it.
\<close>

fun block_state :: "bool \<Rightarrow> jsstring \<Rightarrow> bool" where
  "block_state False (a # b # cs) =
     (if a = 47 \<and> b = 42 then block_state True cs else block_state False (b # cs))"
| "block_state True (a # b # cs) =
     (if a = 42 \<and> b = 47 then block_state False cs else block_state True (b # cs))"
| "block_state st cs = st"

definition in_open_block :: "jsstring list \<Rightarrow> nat \<Rightarrow> bool" where
  "in_open_block lines n = foldl block_state False (take n lines)"

text \<open>
  A rule whose pattern has the \<open>g\<close> flag and cannot match the empty string: each match
  moves \<open>lastIndex\<close> forward.
\<close>

definition progressing :: "VulnerabilityPattern \<Rightarrow> bool" where
  "progressing rule \<longleftrightarrow> global (pattern rule) \<and> 0 < min_len (source (pattern rule))"

section \<open>Example inputs\<close>

text \<open>The file contents of scenarios A and C of the specification (34 is the double quote).\<close>

definition scenarioA :: jsstring where
  "scenarioA = js ''const apiKey = '' @ [34] @ js ''sk_live_abcdef1234567890'' @ [34] @ js '';''"

definition scenarioC :: jsstring where
  "scenarioC = js ''// eval(userInput);''"

text \<open>
  A match of the \<open>eval\<close> rule on the line after a block-comment opener; one behind an
  opener and before \<open>//\<close> on the same line; and one before \<open>//\<close> with no opener.
\<close>

definition blockFile :: jsstring where
  "blockFile = js ''/*'' @ [10] @ js ''eval(x)'' @ [10] @ js ''*/''"

definition mixedLine :: jsstring where
  "mixedLine = js ''/* eval(x); // c''"

definition tailComment :: jsstring where
  "tailComment = js ''eval(a); // note''"

text \<open>The \<open>eval\<close> rule of the catalog, and a rule with the pattern \<open>/a*/g\<close>.\<close>

definition eval_rule :: VulnerabilityPattern where
  "eval_rule = initializePatterns ! 8"

definition star_rule :: VulnerabilityPattern where
  "star_rule = entry unsafe_eval low (regexp (star (Chr 97)) False)
     ''a*'' ''a pattern that matches the empty string'' ''none'' ''CWE-0'' ''none'' conf_low"

text \<open>
  \<open>path.extname\<close> of Node.js on POSIX: the last component of the path, trailing slashes
  aside, from its last dot on; empty when there is no dot, when the only dot comes
  first, and for the component \<open>..\<close>.
\<close>

definition posix_extname :: "jsstring \<Rightarrow> jsstring" where
  "posix_extname path =
     (let trimmed = rev (dropWhile (\<lambda>c. c = 47) (rev path));
          base = rev (takeWhile (\<lambda>c. c \<noteq> 47) (rev trimmed));
          dot = lastIndexOf base [46]
      in if dot \<le> 0 \<or> base = js ''..'' then [] else drop (nat dot) base)"

text \<open>
  A workspace of two collected files, \<open>/w/a.js\<close> and \<open>/w/notes.txt\<close>. \<open>reads content\<close>
  is a file system in which the first holds \<open>content\<close> and the second a call of
  \<open>eval\<close>; in \<open>unreadable\<close> every read fails.
\<close>

definition example_files :: "ProjectFile list" where
  "example_files =
     [\<lparr>ProjectFile.filePath = js ''/w/a.js'', relativePath = js ''a.js''\<rparr>,
      \<lparr>ProjectFile.filePath = js ''/w/notes.txt'', relativePath = js ''notes.txt''\<rparr>]"

definition reads :: "jsstring \<Rightarrow> jsstring \<Rightarrow> exn + jsstring" where
  "reads content path =
     (if path = js ''/w/a.js'' then Inr content
      else if path = js ''/w/notes.txt'' then Inr (js ''eval(x)'')
      else Inl ReadError)"

definition example_world :: "(jsstring \<Rightarrow> exn + jsstring) \<Rightarrow> env" where
  "example_world fs =
     \<lparr>collectProjectFiles = example_files, readFile = fs, extname = posix_extname,
      startTime = 0, endTime = 5, now = 100\<rparr>"

text \<open>
  Three engines: one that takes up to 125000 spread arguments in a call, one that takes
  any number, and one in which the \<open>push\<close> of a file's issues takes none.
\<close>

definition example_engine :: engine where
  "example_engine =
     \<lparr>toLowerCase = toLowerCase_ascii, spreadThrows = (\<lambda>site n. 125000 < n)\<rparr>"

definition unbounded_engine :: engine where
  "unbounded_engine =
     \<lparr>toLowerCase = toLowerCase_ascii, spreadThrows = (\<lambda>site n. False)\<rparr>"

definition tight_engine :: engine where
  "tight_engine =
     \<lparr>toLowerCase = toLowerCase_ascii,
      spreadThrows = (\<lambda>site n. site = push_fileIssues \<and> 0 < n)\<rparr>"

definition unreadable :: "jsstring \<Rightarrow> exn + jsstring" where
  "unreadable path = Inl ReadError"

text \<open>The issue and the result of scanning the example workspace with scenario A in it.\<close>

definition issueA :: SecurityIssue where
  "issueA = with_paths (js ''/w/a.js'') (js ''a.js'')
     (mk_issue scenarioA (js_split scenarioA 10) (hd initializePatterns) 6)"

definition resultA :: SecurityScanResult where
  "resultA = \<lparr>issues = [issueA], filesScanned = 1, totalIssues = 1, criticalCount = 1,
     highCount = 0, mediumCount = 0, lowCount = 0, scanDuration = 5, timestamp = 100\<rparr>"

section \<open>The loop of the match locator\<close>

text \<open>
  The equations of \<open>m\<close> are unfolded on demand only: the one for the quantifier
  contains a call of \<open>m\<close> on a quantifier again.
\<close>

declare m.simps [simp del]

text \<open>One iteration of the loop, and induction over the iterations of a loop that ends.\<close>

lemma findLoop_step:
  "findLoop content lines rule R acc =
     (case exec R content of
        (None, R') \<Rightarrow> Some (acc, R')
      | (Some (i, e), R') \<Rightarrow> findLoop content lines rule R' (acc @ emitted content lines rule i))"
  by (subst findLoop.simps)
     (simp add: emitted_def suppressed_def mk_issue_def lineContent_of_def lineNumber_of_def
        column_of_def Let_def split: prod.splits option.splits)

lemma findLoop_induct [consumes 1, case_names stop step]:
  assumes run: "findLoop content lines rule R acc = Some y"
    and stop: "\<And>R acc R'. exec R content = (None, R') \<Longrightarrow> P R acc (acc, R')"
    and step: "\<And>R acc i e R' y.
        exec R content = (Some (i, e), R') \<Longrightarrow>
        findLoop content lines rule R' (acc @ emitted content lines rule i) = Some y \<Longrightarrow>
        P R' (acc @ emitted content lines rule i) y \<Longrightarrow> P R acc y"
  shows "P R acc y"
proof -
  have "findLoop c l r R acc = Some y \<Longrightarrow>
        c = content \<and> l = lines \<and> r = rule \<longrightarrow>
        findLoop content lines rule R acc = Some y \<and> P R acc y" for c l r
  proof (induction rule: findLoop.raw_induct[rotated 1, consumes 1, case_names body])
    case (body f c l r R acc y)
    show ?case
    proof (intro impI)
      assume eq: "c = content \<and> l = lines \<and> r = rule"
      obtain res R' where ex: "exec R content = (res, R')" by (cases "exec R content")
      show "findLoop content lines rule R acc = Some y \<and> P R acc y"
      proof (cases res)
        case None
        with body(2) ex eq have "y = (acc, R')" by auto
        with None ex show ?thesis by (simp add: findLoop_step stop)
      next
        case (Some ie)
        obtain i e where ie: "ie = (i, e)" by (cases ie)
        from body(2) ex Some ie eq
        have call: "f content lines rule R' (acc @ emitted content lines rule i) = Some y"
          by (auto simp: emitted_def suppressed_def mk_issue_def lineContent_of_def
                lineNumber_of_def column_of_def Let_def split: if_splits)
        from body(1)[OF call]
        have r: "findLoop content lines rule R' (acc @ emitted content lines rule i) = Some y"
          and p: "P R' (acc @ emitted content lines rule i) y"
          by simp_all
        from ex Some ie have ex': "exec R content = (Some (i, e), R')" by simp
        from step[OF ex' r p] r ex' show ?thesis by (simp add: findLoop_step)
      qed
    qed
  qed
  with run show ?thesis by simp
qed

lemma exec_state:
  "exec R S = (res, R') \<Longrightarrow>
     R' = (if global R then R\<lparr>lastIndex := (case res of None \<Rightarrow> 0 | Some (i, e) \<Rightarrow> e)\<rparr> else R)"
  by (auto simp: exec_def Let_def split: if_splits option.splits prod.splits)

lemma findLoop_state:
  "findLoop content lines rule R acc = Some y \<Longrightarrow>
     snd y = (if global R then R\<lparr>lastIndex := 0\<rparr> else R)"
proof (induction rule: findLoop_induct)
  case (stop R acc R')
  from exec_state[OF this] show ?case by simp
next
  case (step R acc i e R' y)
  from exec_state[OF step(1)] step(3) show ?case by (auto split: if_splits)
qed

lemma findLoop_found:
  "findLoop content lines rule R acc = Some y \<Longrightarrow>
     set (fst y) = set acc \<union> {mk_issue content lines rule i | i.
                                  visits content R i \<and> \<not> suppressed content lines i}"
proof (induction rule: findLoop_induct)
  case (stop R acc R')
  have "\<not> visits content R i" for i
    using stop by (auto elim: visits.cases)
  then show ?case by simp
next
  case (step R acc i e R' y)
  have v: "visits content R j \<longleftrightarrow> j = i \<or> visits content R' j" for j
    using step(1) by (auto elim: visits.cases intro: visits.intros)
  show ?case unfolding step(3) v by (auto simp: emitted_def)
qed

lemma findLoop_rule_fields:
  assumes "findLoop content lines rule R acc = Some y"
    and "\<And>i. mk_issue content lines rule2 i = mk_issue content lines rule i"
  shows "findLoop content lines rule2 R acc = Some y"
  using assms(1)
proof (induction rule: findLoop_induct)
  case (stop R acc R')
  then show ?case by (simp add: findLoop_step)
next
  case (step R acc i e R' y)
  have "emitted content lines rule2 i = emitted content lines rule i"
    by (simp add: emitted_def assms(2))
  with step show ?case by (simp add: findLoop_step[of content lines rule2 R])
qed

section \<open>Progress of the matcher\<close>

text \<open>
  Every end state of a match leaves at most as much input as the start state, less the
  minimal length of the pattern. In particular the test that guards the recursion of the
  quantifier against a longer rest never fires.
\<close>

lemma m_Rep_elem:
  assumes "y \<in> set (m ic (Rep mn mx greedy r) x)"
  shows "(y = x \<and> (mn = 0 \<or> mx = Some 0)) \<or>
         (mx \<noteq> Some 0 \<and> (\<exists>z \<in> set (m ic r x).
            \<not> (mn = 0 \<and> length (snd z) = length (snd x)) \<and>
            \<not> length (snd x) < length (snd z) \<and>
            y \<in> set (m ic (Rep (mn - 1) (map_option (\<lambda>k. k - 1) mx) greedy r) z)))"
proof (cases "mx = Some 0")
  case True
  from assms have "y \<in> set (if mx = Some 0 then [x]
      else
        let zs = concat (map
              (\<lambda>y. if mn = 0 \<and> length (snd y) = length (snd x) then []
                   else if length (snd x) < length (snd y) then []
                   else m ic (Rep (mn - 1) (map_option (\<lambda>k. k - 1) mx) greedy r) y)
              (m ic r x))
        in if mn \<noteq> 0 then zs else if greedy then zs @ [x] else x # zs)"
    by (subst (asm) m.simps(6))
  with True show ?thesis by simp
next
  case False
  let ?d = "\<lambda>y. if mn = 0 \<and> length (snd y) = length (snd x) then []
                 else if length (snd x) < length (snd y) then []
                 else m ic (Rep (mn - 1) (map_option (\<lambda>k. k - 1) mx) greedy r) y"
  from assms have "y \<in> set (if mx = Some 0 then [x]
      else
        let zs = concat (map ?d (m ic r x))
        in if mn \<noteq> 0 then zs else if greedy then zs @ [x] else x # zs)"
    by (subst (asm) m.simps(6))
  with False
  have "y \<in> set (if mn \<noteq> 0 then concat (map ?d (m ic r x))
                  else if greedy then concat (map ?d (m ic r x)) @ [x]
                  else x # concat (map ?d (m ic r x)))"
    by (simp only: Let_def if_False)
  then have "(y = x \<and> mn = 0) \<or> y \<in> set (concat (map ?d (m ic r x)))"
    by (simp split: if_splits)
  then show ?thesis
  proof
    assume "y = x \<and> mn = 0"
    then show ?thesis by simp
  next
    assume "y \<in> set (concat (map ?d (m ic r x)))"
    then obtain z where z: "z \<in> set (m ic r x)" and yz: "y \<in> set (?d z)"
      unfolding set_concat set_map by blast
    from yz have "\<not> (mn = 0 \<and> length (snd z) = length (snd x))"
      and "\<not> length (snd x) < length (snd z)"
      and "y \<in> set (m ic (Rep (mn - 1) (map_option (\<lambda>k. k - 1) mx) greedy r) z)"
      by (simp_all split: if_splits)
    with z False show ?thesis by blast
  qed
qed


lemma m_min_len:
  "y \<in> set (m ic r x) \<Longrightarrow> length (snd y) + min_len r \<le> length (snd x)"
proof (induction ic r x arbitrary: y rule: m.induct)
  case (1 ic x)
  then show ?case by (simp add: m.simps)
next
  case (2 ic c x)
  then show ?case by (cases x) (auto simp: m.simps split: list.splits if_splits)
next
  case (3 ic invert atoms x)
  then show ?case by (cases x) (auto simp: m.simps split: list.splits if_splits)
next
  case (4 ic r1 r2 x)
  from 4(3) obtain z where z: "z \<in> set (m ic r1 x)" and y: "y \<in> set (m ic r2 z)"
    by (auto simp: m.simps)
  from 4(1)[OF z] 4(2)[OF z y] show ?case by simp
next
  case (5 ic r1 r2 x)
  from 5(3) have "y \<in> set (m ic r1 x) \<or> y \<in> set (m ic r2 x)" by (simp add: m.simps)
  then show ?case
  proof
    assume "y \<in> set (m ic r1 x)"
    from 5(1)[OF this] show ?thesis by simp
  next
    assume "y \<in> set (m ic r2 x)"
    from 5(2)[OF this] show ?thesis by simp
  qed
next
  case (6 ic mn mx greedy r x)
  let ?r' = "Rep (mn - 1) (map_option (\<lambda>k. k - 1) mx) greedy r"
  from m_Rep_elem[OF 6(3)]
  consider (here) "y = x" "mn = 0 \<or> mx = Some 0"
    | (iter) z where "mx \<noteq> Some 0" "z \<in> set (m ic r x)"
        "\<not> (mn = 0 \<and> length (snd z) = length (snd x))"
        "\<not> length (snd x) < length (snd z)" "y \<in> set (m ic ?r' z)"
    by blast
  then show ?case
  proof cases
    case here
    then show ?thesis by (auto split: option.splits)
  next
    case iter
    from 6(1)[OF iter(1,2)] have a: "length (snd z) + min_len r \<le> length (snd x)" .
    from 6(2)[OF iter] have b: "length (snd y) + min_len ?r' \<le> length (snd z)" .
    have "min_len (Rep mn mx greedy r) \<le> min_len r + min_len ?r'"
    proof (cases mx)
      case None
      then show ?thesis by (cases mn) simp_all
    next
      case (Some k)
      with iter(1) obtain k' where k: "k = Suc k'" by (cases k) auto
      show ?thesis using Some k by (cases mn) (simp_all add: min_def)
    qed
    with a b show ?thesis by linarith
  qed
next
  case (7 ic r x)
  then show ?case by (simp add: m.simps split: if_splits)
next
  case (8 ic x)
  then show ?case by (simp add: m.simps Let_def split: if_splits)
qed

lemma m_never_longer:
  "y \<in> set (m ic r x) \<Longrightarrow> \<not> length (snd x) < length (snd y)"
  using m_min_len[of y ic r x] by simp

lemma match_from_bounds:
  "match_from ic r S prev rest = Some (i, e) \<Longrightarrow> length rest \<le> length S \<Longrightarrow>
     length S - length rest \<le> i \<and> i + min_len r \<le> e \<and> e \<le> length S"
proof (induction rest arbitrary: prev)
  case Nil
  show ?case
  proof (cases "m ic r (prev, [])")
    case Nil
    with Nil.prems show ?thesis by simp
  next
    case (Cons y ys)
    then have "y \<in> set (m ic r (prev, []))" by simp
    from m_min_len[OF this] have "length (snd y) = 0" "min_len r = 0" by simp_all
    with Cons Nil.prems show ?thesis by auto
  qed
next
  case (Cons c cs)
  show ?case
  proof (cases "m ic r (prev, c # cs)")
    case Nil
    with Cons.prems have "match_from ic r S (Some c) cs = Some (i, e)" by simp
    from Cons.IH[OF this] Cons.prems(2) show ?thesis by (simp; linarith)
  next
    case (Cons y ys)
    then have "y \<in> set (m ic r (prev, c # cs))" by simp
    from m_min_len[OF this] have "length (snd y) + min_len r \<le> Suc (length cs)" by simp
    with Cons Cons.prems show ?thesis by auto
  qed
qed

lemma exec_advance:
  assumes "exec R S = (Some (i, e), R')" and "global R"
  shows "lastIndex R \<le> i \<and> i + min_len (source R) \<le> e \<and> e \<le> length S \<and>
         R' = R\<lparr>lastIndex := e\<rparr>"
proof -
  from assms have le: "lastIndex R \<le> length S"
    by (auto simp: exec_def Let_def split: if_splits)
  with assms have mf: "match_from (ignoreCase R) (source R) S
      (if lastIndex R = 0 then None else Some (S ! (lastIndex R - 1))) (drop (lastIndex R) S) = Some (i, e)"
    and R': "R' = R\<lparr>lastIndex := e\<rparr>"
    by (auto simp: exec_def Let_def split: if_splits option.splits)
  from match_from_bounds[OF mf] le R' show ?thesis by auto
qed

lemma findLoop_terminates:
  assumes "global R" and "0 < min_len (source R)"
  shows "\<exists>y. findLoop content lines rule R acc = Some y"
  using assms
proof (induction "Suc (length content) - lastIndex R" arbitrary: R acc rule: less_induct)
  case less
  obtain res R' where ex: "exec R content = (res, R')" by (cases "exec R content")
  show ?case
  proof (cases res)
    case None
    with ex show ?thesis by (simp add: findLoop_step)
  next
    case (Some ie)
    obtain i e where ie: "ie = (i, e)" by (cases ie)
    with ex Some have ex': "exec R content = (Some (i, e), R')" by simp
    from exec_advance[OF ex' less.prems(1)] less.prems(2)
    have adv: "lastIndex R < e" "e \<le> length content" "R' = R\<lparr>lastIndex := e\<rparr>" by auto
    then have "Suc (length content) - lastIndex R' < Suc (length content) - lastIndex R"
      by simp
    moreover have "global R'" "0 < min_len (source R')"
      using adv(3) less.prems by simp_all
    ultimately
    have "\<exists>y. findLoop content lines rule R' (acc @ emitted content lines rule i) = Some y"
      by (rule less.hyps)
    with ex' show ?thesis by (simp add: findLoop_step)
  qed
qed

section \<open>Rules and their regular-expression state\<close>

lemma reset_fields [simp]:
  "VulnerabilityPattern.type (reset r) = VulnerabilityPattern.type r"
  "VulnerabilityPattern.severity (reset r) = VulnerabilityPattern.severity r"
  "VulnerabilityPattern.message (reset r) = VulnerabilityPattern.message r"
  "VulnerabilityPattern.description (reset r) = VulnerabilityPattern.description r"
  "VulnerabilityPattern.recommendation (reset r) = VulnerabilityPattern.recommendation r"
  "VulnerabilityPattern.cweId (reset r) = VulnerabilityPattern.cweId r"
  "VulnerabilityPattern.owaspCategory (reset r) = VulnerabilityPattern.owaspCategory r"
  "VulnerabilityPattern.confidence (reset r) = VulnerabilityPattern.confidence r"
  "pattern (reset r) = (pattern r)\<lparr>lastIndex := 0\<rparr>"
  "reset (reset r) = reset r"
  by (simp_all add: reset_def)

lemma mk_issue_reset: "mk_issue content lines (reset r) i = mk_issue content lines r i"
  by (simp add: mk_issue_def)

lemma mk_issue_same_reset:
  assumes "reset r2 = reset r"
  shows "mk_issue content lines r2 i = mk_issue content lines r i"
  using mk_issue_reset[of content lines r2 i] mk_issue_reset[of content lines r i] assms
  by simp

lemma findPatternMatches_reset:
  assumes "findPatternMatches content lines rule = Some (found, rule')"
  shows "rule' = reset rule"
proof -
  from assms obtain R' where
    run: "findLoop content lines rule ((pattern rule)\<lparr>lastIndex := 0\<rparr>) [] = Some (found, R')"
    and r: "rule' = rule\<lparr>pattern := R'\<rparr>"
    by (auto simp: findPatternMatches_def split: option.splits)
  from findLoop_state[OF run] have "R' = (pattern rule)\<lparr>lastIndex := 0\<rparr>"
    by (simp split: if_splits)
  with r show ?thesis by (simp add: reset_def)
qed

lemma findPatternMatches_found:
  assumes "findPatternMatches content lines rule = Some (found, rule')"
  shows "set found = {mk_issue content lines rule i | i.
            visits content ((pattern rule)\<lparr>lastIndex := 0\<rparr>) i \<and> \<not> suppressed content lines i}"
proof -
  from assms obtain R' where
    run: "findLoop content lines rule ((pattern rule)\<lparr>lastIndex := 0\<rparr>) [] = Some (found, R')"
    by (auto simp: findPatternMatches_def split: option.splits)
  from findLoop_found[OF run] show ?thesis by simp
qed

lemma findPatternMatches_independent:
  assumes "findPatternMatches content lines rule = Some (found, rule')"
    and "reset rule2 = reset rule"
  shows "findPatternMatches content lines rule2 = Some (found, reset rule)"
proof -
  from assms(1) obtain R' where
    run: "findLoop content lines rule ((pattern rule)\<lparr>lastIndex := 0\<rparr>) [] = Some (found, R')"
    by (auto simp: findPatternMatches_def split: option.splits)
  from findLoop_state[OF run] have R': "R' = (pattern rule)\<lparr>lastIndex := 0\<rparr>"
    by (simp split: if_splits)
  from assms(2) have p: "(pattern rule2)\<lparr>lastIndex := 0\<rparr> = (pattern rule)\<lparr>lastIndex := 0\<rparr>"
    using reset_fields(9)[of rule2] reset_fields(9)[of rule] by simp
  have "findLoop content lines rule2 ((pattern rule)\<lparr>lastIndex := 0\<rparr>) [] = Some (found, R')"
    using run by (rule findLoop_rule_fields) (rule mk_issue_same_reset[OF assms(2)])
  with p R' have "findPatternMatches content lines rule2 = Some (found, rule2\<lparr>pattern := (pattern rule2)\<lparr>lastIndex := 0\<rparr>\<rparr>)"
    by (simp add: findPatternMatches_def)
  with assms(2) show ?thesis by (simp add: reset_def)
qed
lemma with_paths_fields [simp]:
  "type (with_paths fp rp i) = type i"
  "severity (with_paths fp rp i) = severity i"
  "line (with_paths fp rp i) = line i"
  "column (with_paths fp rp i) = column i"
  "cweId (with_paths fp rp i) = cweId i"
  "filePath (with_paths fp rp i) = fp"
  "relativePath (with_paths fp rp i) = rp"
  by (simp_all add: with_paths_def IssueNoPath.extend_def)

section \<open>The comment filter\<close>

text \<open>
  \<open>indexOf\<close> and \<open>lastIndexOf\<close> in terms of the occurrences of the search string, and with
  them what \<open>isInComment\<close> decides.
\<close>

lemma marker_at_Nil [simp]: "pat \<noteq> [] \<Longrightarrow> \<not> marker_at pat [] k"
  by (simp add: marker_at_def)

lemma marker_at_Cons_0 [simp]: "marker_at pat (c # cs) 0 \<longleftrightarrow> prefix pat (c # cs)"
  by (simp add: marker_at_def)

lemma marker_at_Cons_Suc [simp]: "marker_at pat (c # cs) (Suc k) \<longleftrightarrow> marker_at pat cs k"
  by (simp add: marker_at_def)

lemma marker_at_length:
  assumes "marker_at pat s k" and "pat \<noteq> []"
  shows "k + length pat \<le> length s"
proof -
  from assms(1) have "length pat \<le> length s - k"
    by (auto simp: marker_at_def dest!: prefix_length_le)
  moreover from assms(2) have "0 < length pat" by simp
  ultimately show ?thesis by linarith
qed

lemma marker_at_take:
  "marker_at pat (take n s) k \<longleftrightarrow> marker_at pat s k \<and> (pat = [] \<or> k + length pat \<le> n)"
proof (cases "pat = []")
  case True
  then show ?thesis by (simp add: marker_at_def)
next
  case False
  show ?thesis
  proof
    assume a: "marker_at pat (take n s) k"
    from marker_at_length[OF a False] have "k + length pat \<le> n" by simp
    moreover from a have "marker_at pat s k"
      unfolding marker_at_def drop_take
      by (meson prefix_order.order_trans take_is_prefix)
    ultimately show "marker_at pat s k \<and> (pat = [] \<or> k + length pat \<le> n)" by simp
  next
    assume "marker_at pat s k \<and> (pat = [] \<or> k + length pat \<le> n)"
    with False have p: "prefix pat (drop k s)" and le: "k + length pat \<le> n"
      by (simp_all add: marker_at_def)
    from p obtain zs where "drop k s = pat @ zs" by (auto simp: prefix_def)
    with le show "marker_at pat (take n s) k"
      unfolding marker_at_def drop_take by (simp add: prefix_def)
  qed
qed

lemma indexOf_from_spec:
  assumes "pat \<noteq> []"
  shows "(indexOf_from pat s k = - 1 \<and> (\<forall>j. \<not> marker_at pat s j)) \<or>
         (\<exists>j. marker_at pat s j \<and> indexOf_from pat s k = k + int j)"
proof (induction s arbitrary: k)
  case Nil
  with assms show ?case by simp
next
  case (Cons c cs)
  show ?case
  proof (cases "prefix pat (c # cs)")
    case True
    then have "marker_at pat (c # cs) 0 \<and> indexOf_from pat (c # cs) k = k + int 0" by simp
    then show ?thesis by blast
  next
    case False
    from Cons.IH[of "k + 1"] show ?thesis
    proof
      assume a: "indexOf_from pat cs (k + 1) = - 1 \<and> (\<forall>j. \<not> marker_at pat cs j)"
      have "\<not> marker_at pat (c # cs) j" for j
        using a False by (cases j) simp_all
      with a False show ?thesis by simp
    next
      assume "\<exists>j. marker_at pat cs j \<and> indexOf_from pat cs (k + 1) = k + 1 + int j"
      then obtain j where "marker_at pat cs j" "indexOf_from pat cs (k + 1) = k + 1 + int j"
        by blast
      with False have "marker_at pat (c # cs) (Suc j) \<and>
          indexOf_from pat (c # cs) k = k + int (Suc j)" by simp
      then show ?thesis by blast
    qed
  qed
qed

lemma lastIndexOf_from_spec:
  assumes "pat \<noteq> []"
  shows "(lastIndexOf_from pat s k found = found \<and> (\<forall>j. \<not> marker_at pat s j)) \<or>
         (\<exists>j. marker_at pat s j \<and> (\<forall>j'. marker_at pat s j' \<longrightarrow> j' \<le> j) \<and>
              lastIndexOf_from pat s k found = k + int j)"
proof (induction s arbitrary: k found)
  case Nil
  with assms show ?case by simp
next
  case (Cons c cs)
  let ?found = "if prefix pat (c # cs) then k else found"
  from Cons.IH[of "k + 1" ?found] show ?case
  proof
    assume a: "lastIndexOf_from pat cs (k + 1) ?found = ?found \<and> (\<forall>j. \<not> marker_at pat cs j)"
    show ?thesis
    proof (cases "prefix pat (c # cs)")
      case True
      have "j' \<le> 0" if "marker_at pat (c # cs) j'" for j'
        using that a by (cases j') simp_all
      with True a have "marker_at pat (c # cs) 0 \<and> (\<forall>j'. marker_at pat (c # cs) j' \<longrightarrow> j' \<le> 0) \<and>
          lastIndexOf_from pat (c # cs) k found = k + int 0" by simp
      then show ?thesis by blast
    next
      case False
      have "\<not> marker_at pat (c # cs) j" for j
        using a False by (cases j) simp_all
      with a False show ?thesis by simp
    qed
  next
    assume "\<exists>j. marker_at pat cs j \<and> (\<forall>j'. marker_at pat cs j' \<longrightarrow> j' \<le> j) \<and>
              lastIndexOf_from pat cs (k + 1) ?found = k + 1 + int j"
    then obtain j where j: "marker_at pat cs j" "\<forall>j'. marker_at pat cs j' \<longrightarrow> j' \<le> j"
      "lastIndexOf_from pat cs (k + 1) ?found = k + 1 + int j" by blast
    have "j' \<le> Suc j" if "marker_at pat (c # cs) j'" for j'
      using that j(2) by (cases j') auto
    with j have "marker_at pat (c # cs) (Suc j) \<and> (\<forall>j'. marker_at pat (c # cs) j' \<longrightarrow> j' \<le> Suc j) \<and>
        lastIndexOf_from pat (c # cs) k found = k + int (Suc j)" by simp
    then show ?thesis by blast
  qed
qed

lemma substring_prefix: "substring s 0 c = take (nat c) s"
  by (simp add: substring_def Let_def min_def max_def)

lemma js_nonempty [simp]: "js (c # cs) \<noteq> []"
  by (simp add: js_def)

lemma isInComment_iff:
  "isInComment text col \<longleftrightarrow>
     (\<exists>k. marker_at (js ''//'') text k \<and> int k + 2 \<le> col) \<or>
     (\<exists>k. marker_at (js ''/*'') text k \<and> int k + 2 \<le> col \<and>
          (\<forall>j. marker_at (js ''*/'') text j \<and> int j + 2 \<le> col \<longrightarrow> j < k))"
proof -
  let ?b = "take (nat col) text"
  have mk: "marker_at (js [a, b]) ?b k \<longleftrightarrow> marker_at (js [a, b]) text k \<and> int k + 2 \<le> col"
    for a b k
    by (auto simp: marker_at_take js_def)
  have single: "(indexOf ?b (js ''//'') \<noteq> - 1 \<and> indexOf ?b (js ''//'') < col) \<longleftrightarrow>
      (\<exists>k. marker_at (js ''//'') text k \<and> int k + 2 \<le> col)"
    using indexOf_from_spec[of "js ''//''" ?b 0]
    unfolding indexOf_def mk by auto
  let ?open = "\<lambda>k. marker_at (js ''/*'') text k \<and> int k + 2 \<le> col"
  let ?close = "\<lambda>j. marker_at (js ''*/'') text j \<and> int j + 2 \<le> col"
  have multi: "(lastIndexOf ?b (js ''/*'') \<noteq> - 1 \<and> lastIndexOf ?b (js ''/*'') > lastIndexOf ?b (js ''*/'')) \<longleftrightarrow>
      (\<exists>k. ?open k \<and> (\<forall>j. ?close j \<longrightarrow> j < k))"
  proof -
    have s: "(lastIndexOf ?b (js ''/*'') = - 1 \<and> (\<forall>k. \<not> ?open k)) \<or>
        (\<exists>k. ?open k \<and> (\<forall>k'. ?open k' \<longrightarrow> k' \<le> k) \<and> lastIndexOf ?b (js ''/*'') = int k)"
      using lastIndexOf_from_spec[of "js ''/*''" ?b 0 "- 1"]
      unfolding lastIndexOf_def mk by simp
    have e: "(lastIndexOf ?b (js ''*/'') = - 1 \<and> (\<forall>j. \<not> ?close j)) \<or>
        (\<exists>j. ?close j \<and> (\<forall>j'. ?close j' \<longrightarrow> j' \<le> j) \<and> lastIndexOf ?b (js ''*/'') = int j)"
      using lastIndexOf_from_spec[of "js ''*/''" ?b 0 "- 1"]
      unfolding lastIndexOf_def mk by simp
    from s show ?thesis
    proof
      assume "lastIndexOf ?b (js ''/*'') = - 1 \<and> (\<forall>k. \<not> ?open k)"
      then show ?thesis by blast
    next
      assume "\<exists>k. ?open k \<and> (\<forall>k'. ?open k' \<longrightarrow> k' \<le> k) \<and> lastIndexOf ?b (js ''/*'') = int k"
      then obtain ks where ks: "?open ks" "\<forall>k'. ?open k' \<longrightarrow> k' \<le> ks"
        "lastIndexOf ?b (js ''/*'') = int ks" by blast
      from e show ?thesis
      proof
        assume ne: "lastIndexOf ?b (js ''*/'') = - 1 \<and> (\<forall>j. \<not> ?close j)"
        with ks(1) have "\<exists>k. ?open k \<and> (\<forall>j. ?close j \<longrightarrow> j < k)" by blast
        with ne ks(3) show ?thesis by simp
      next
        assume "\<exists>j. ?close j \<and> (\<forall>j'. ?close j' \<longrightarrow> j' \<le> j) \<and> lastIndexOf ?b (js ''*/'') = int j"
        then obtain je where je: "?close je" "\<forall>j'. ?close j' \<longrightarrow> j' \<le> je"
          "lastIndexOf ?b (js ''*/'') = int je" by blast
        have "je < ks \<longleftrightarrow> (\<exists>k. ?open k \<and> (\<forall>j. ?close j \<longrightarrow> j < k))"
        proof
          assume "je < ks"
          with je(2) have "\<forall>j. ?close j \<longrightarrow> j < ks" by (meson le_less_trans)
          with ks(1) show "\<exists>k. ?open k \<and> (\<forall>j. ?close j \<longrightarrow> j < k)" by blast
        next
          assume "\<exists>k. ?open k \<and> (\<forall>j. ?close j \<longrightarrow> j < k)"
          then obtain k where "?open k" "\<forall>j. ?close j \<longrightarrow> j < k" by blast
          with je(1) ks(2) have "je < k" "k \<le> ks" by blast+
          then show "je < ks" by simp
        qed
        with ks(3) je(3) show ?thesis by simp
      qed
    qed
  qed
  show ?thesis
    unfolding isInComment_def substring_prefix Let_def using single multi by auto
qed

section \<open>The file scanner and the orchestrator\<close>

lemma mk_issue_fields [simp]:
  "type (mk_issue content lines rule i) = VulnerabilityPattern.type rule"
  "severity (mk_issue content lines rule i) = VulnerabilityPattern.severity rule"
  "cweId (mk_issue content lines rule i) = VulnerabilityPattern.cweId rule"
  "line (mk_issue content lines rule i) = lineNumber_of content i"
  "column (mk_issue content lines rule i) = column_of content i"
  by (simp_all add: mk_issue_def)

lemma push_if [simp]:
  "push eng site xs ys =
     (if spreadThrows eng site (length ys) then Inl RangeError else Inr (xs @ ys))"
  by (simp add: push_def)

lemma scanRules_Cons:
  "scanRules eng content lines fp rp (rule # rules) acc =
     (case findPatternMatches content lines rule of
        None \<Rightarrow> None
      | Some (matches, rule') \<Rightarrow>
          if spreadThrows eng push_matches (length matches) then Some (acc, rule' # rules)
          else
            (case scanRules eng content lines fp rp rules (acc @ map (with_paths fp rp) matches) of
               None \<Rightarrow> None
             | Some (found, rules') \<Rightarrow> Some (found, rule' # rules')))"
  unfolding with_paths_def by (simp split: option.splits)

text \<open>
  What the loop over the rules does with its first rule: the search does not end, or
  the \<open>push\<close> of its matches throws, or the loop goes on with the next rule.
\<close>

lemma scanRules_Cons_cases:
  assumes "scanRules eng content lines fp rp (rule # rules) acc = Some (found, rules')"
  obtains (thrown) ms where
      "findPatternMatches content lines rule = Some (ms, reset rule)"
      "spreadThrows eng push_matches (length ms)" "found = acc" "rules' = reset rule # rules"
  | (pushed) ms rules1 where
      "findPatternMatches content lines rule = Some (ms, reset rule)"
      "\<not> spreadThrows eng push_matches (length ms)"
      "scanRules eng content lines fp rp rules (acc @ map (with_paths fp rp) ms) = Some (found, rules1)"
      "rules' = reset rule # rules1"
proof -
  from assms obtain ms rule1 where
    a: "findPatternMatches content lines rule = Some (ms, rule1)"
    by (auto simp: scanRules_Cons simp del: scanRules.simps split: option.splits)
  from findPatternMatches_reset[OF a] a
  have a': "findPatternMatches content lines rule = Some (ms, reset rule)" by simp
  show ?thesis
  proof (cases "spreadThrows eng push_matches (length ms)")
    case True
    with assms a' have "found = acc" "rules' = reset rule # rules"
      by (simp_all add: scanRules_Cons del: scanRules.simps)
    with a' True show ?thesis by (rule thrown)
  next
    case False
    with assms a' obtain rules1 where
      "scanRules eng content lines fp rp rules (acc @ map (with_paths fp rp) ms) = Some (found, rules1)"
      "rules' = reset rule # rules1"
      by (auto simp: scanRules_Cons simp del: scanRules.simps split: option.splits)
    with a' False show ?thesis by (rule pushed)
  qed
qed

lemma scanRules_reset:
  "scanRules eng content lines fp rp rules acc = Some (found, rules') \<Longrightarrow>
   map reset rules' = map reset rules"
proof (induction rules arbitrary: acc found rules')
  case Nil
  then show ?case by simp
next
  case (Cons rule rules)
  from Cons.prems show ?case
  proof (cases rule: scanRules_Cons_cases)
    case (thrown ms)
    then show ?thesis by simp
  next
    case (pushed ms rules1)
    from Cons.IH[OF pushed(3)] pushed(4) show ?thesis by simp
  qed
qed

lemma scanRules_independent:
  "scanRules eng content lines fp rp rules acc = Some (found, rules') \<Longrightarrow>
   map reset rules2 = map reset rules \<Longrightarrow>
   \<exists>rules2'. scanRules eng content lines fp rp rules2 acc = Some (found, rules2') \<and>
      map reset rules2' = map reset rules"
proof (induction rules arbitrary: acc found rules' rules2)
  case Nil
  then show ?case by simp
next
  case (Cons rule rules)
  from Cons.prems(2) obtain r2 rs2 where r2: "rules2 = r2 # rs2" "reset r2 = reset rule"
    "map reset rs2 = map reset rules" by (cases rules2) auto
  from Cons.prems(1) show ?case
  proof (cases rule: scanRules_Cons_cases)
    case (thrown ms)
    from findPatternMatches_independent[OF thrown(1) r2(2)] thrown(2,3) r2
    show ?thesis by (simp add: scanRules_Cons del: scanRules.simps)
  next
    case (pushed ms rules1)
    from Cons.IH[OF pushed(3) r2(3)] obtain rs2' where
      "scanRules eng content lines fp rp rs2 (acc @ map (with_paths fp rp) ms) = Some (found, rs2')"
      "map reset rs2' = map reset rules" by blast
    with findPatternMatches_independent[OF pushed(1) r2(2)] pushed(2) r2
    show ?thesis by (simp add: scanRules_Cons del: scanRules.simps)
  qed
qed

lemma scanRules_issues:
  "scanRules eng content lines fp rp rules acc = Some (found, rules') \<Longrightarrow>
   set found \<subseteq> set acc \<union> {with_paths fp rp (mk_issue content lines rule i) | rule i.
       rule \<in> set rules \<and> visits content ((pattern rule)\<lparr>lastIndex := 0\<rparr>) i \<and>
       \<not> suppressed content lines i}"
proof (induction rules arbitrary: acc found rules')
  case Nil
  then show ?case by simp
next
  case (Cons rule rules)
  from Cons.prems show ?case
  proof (cases rule: scanRules_Cons_cases)
    case (thrown ms)
    then show ?thesis by auto
  next
    case (pushed ms rules1)
    show ?thesis
    proof
      fix x assume "x \<in> set found"
      with Cons.IH[OF pushed(3)] consider "x \<in> set acc" | "x \<in> with_paths fp rp ` set ms"
        | "x \<in> {with_paths fp rp (mk_issue content lines rule i) | rule i.
             rule \<in> set rules \<and> visits content ((pattern rule)\<lparr>lastIndex := 0\<rparr>) i \<and>
             \<not> suppressed content lines i}"
        by auto
      then show "x \<in> set acc \<union> {with_paths fp rp (mk_issue content lines r i) | r i.
             r \<in> set (rule # rules) \<and> visits content ((pattern r)\<lparr>lastIndex := 0\<rparr>) i \<and>
             \<not> suppressed content lines i}"
      proof cases
        case 1
        then show ?thesis by simp
      next
        case 2
        then obtain i where "x = with_paths fp rp (mk_issue content lines rule i)"
          "visits content ((pattern rule)\<lparr>lastIndex := 0\<rparr>) i" "\<not> suppressed content lines i"
          unfolding findPatternMatches_found[OF pushed(1)] by auto
        then show ?thesis by auto
      next
        case 3
        then show ?thesis by auto
      qed
    qed
  qed
qed

lemma scanFile_cases:
  assumes "scanFile eng world rules fp rp = Some (res, rules')"
  obtains (unreadable) e where "readFile world fp = Inl e" "res = Inr []" "rules' = rules"
  | (scanned) content found where "readFile world fp = Inr content" "res = Inr found"
      "scanRules eng content (js_split content 10) fp rp rules [] = Some (found, rules')"
  using assms by (auto simp: scanFile_def split: sum.splits option.splits)

lemma scanFile_independent:
  assumes "scanFile eng world rules fp rp = Some (res, rules')"
    and "map reset rules2 = map reset rules" and "readFile world2 fp = readFile world fp"
  shows "\<exists>rules2'. scanFile eng world2 rules2 fp rp = Some (res, rules2') \<and>
           map reset rules2' = map reset rules \<and> map reset rules' = map reset rules"
  using assms(1)
proof (cases rule: scanFile_cases)
  case (unreadable e)
  with assms(2,3) show ?thesis by (simp add: scanFile_def)
next
  case (scanned content found)
  from scanRules_independent[OF scanned(3) assms(2)] obtain rules2' where
    "scanRules eng content (js_split content 10) fp rp rules2 [] = Some (found, rules2')"
    "map reset rules2' = map reset rules" by blast
  with scanRules_reset[OF scanned(3)] scanned(1,2) assms(3)
  show ?thesis by (simp add: scanFile_def)
qed

text \<open>\<open>scanFile\<close> never throws: its \<open>try\<close> holds its whole body.\<close>

lemma scanFile_returns:
  assumes "scanFile eng world rules fp rp = Some (res, rules')"
  obtains fileIssues where "res = Inr fileIssues" "map reset rules' = map reset rules"
  using assms
proof (cases rule: scanFile_cases)
  case (unreadable e)
  with that show ?thesis by simp
next
  case (scanned content found)
  with scanRules_reset[OF scanned(3)] that show ?thesis by simp
qed

text \<open>
  What the loop over the files does with its first file: \<open>scanFile\<close> does not return, or
  the \<open>push\<close> of the file's issues throws and the file is passed over, or the issues are
  added and the file is counted.
\<close>

lemma scanFiles_Cons_cases:
  assumes "scanFiles eng world (pf # files) acc n rules = Some (found, n', rules')"
  obtains (thrown) fileIssues rules1 where
      "scanFile eng world rules (ProjectFile.filePath pf) (ProjectFile.relativePath pf) =
         Some (Inr fileIssues, rules1)"
      "map reset rules1 = map reset rules"
      "spreadThrows eng push_fileIssues (length fileIssues)"
      "scanFiles eng world files acc n rules1 = Some (found, n', rules')"
  | (pushed) fileIssues rules1 where
      "scanFile eng world rules (ProjectFile.filePath pf) (ProjectFile.relativePath pf) =
         Some (Inr fileIssues, rules1)"
      "map reset rules1 = map reset rules"
      "\<not> spreadThrows eng push_fileIssues (length fileIssues)"
      "scanFiles eng world files (acc @ fileIssues) (n + 1) rules1 = Some (found, n', rules')"
proof -
  from assms obtain res rules1 where
    sf: "scanFile eng world rules (ProjectFile.filePath pf) (ProjectFile.relativePath pf) =
           Some (res, rules1)"
    by (auto split: option.splits)
  from sf obtain fileIssues where res: "res = Inr fileIssues"
    and r1: "map reset rules1 = map reset rules"
    by (rule scanFile_returns)
  show ?thesis
  proof (cases "spreadThrows eng push_fileIssues (length fileIssues)")
    case True
    with assms sf res have "scanFiles eng world files acc n rules1 = Some (found, n', rules')"
      by simp
    with sf[unfolded res] r1 True show ?thesis by (rule thrown)
  next
    case False
    with assms sf res
    have "scanFiles eng world files (acc @ fileIssues) (n + 1) rules1 = Some (found, n', rules')"
      by simp
    with sf[unfolded res] r1 False show ?thesis by (rule pushed)
  qed
qed

lemma counted_same_reset:
  assumes "map reset rules2 = map reset rules"
  shows "counted eng world rules2 = counted eng world rules"
proof (rule ext)
  fix f :: ProjectFile
  let ?fp = "ProjectFile.filePath f" and ?rp = "ProjectFile.relativePath f"
  have one: "counted eng world rs f \<Longrightarrow> counted eng world rs' f"
    if "map reset rs' = map reset rs" for rs rs'
  proof -
    assume c: "counted eng world rs f"
    then obtain fileIssues rs1 where
      sf: "scanFile eng world rs ?fp ?rp = Some (Inr fileIssues, rs1)"
      and nt: "\<not> spreadThrows eng push_fileIssues (length fileIssues)"
      by (auto simp: counted_def split: option.splits sum.splits)
    from scanFile_independent[OF sf that refl] obtain rs1' where
      "scanFile eng world rs' ?fp ?rp = Some (Inr fileIssues, rs1')" by blast
    with nt show "counted eng world rs' f" by (simp add: counted_def)
  qed
  from one[OF assms] one[OF assms[symmetric]]
  show "counted eng world rules2 f = counted eng world rules f" by blast
qed

text \<open>\<open>filesScanned\<close> grows by one for each file that is counted, and by nothing else.\<close>

lemma scanFiles_count:
  "scanFiles eng world files acc n rules = Some (found, n', rules') \<Longrightarrow>
   n' = n + int (length (filter (counted eng world rules) files))"
proof (induction files arbitrary: acc n rules)
  case Nil
  then show ?case by simp
next
  case (Cons pf files)
  from Cons.prems show ?case
  proof (cases rule: scanFiles_Cons_cases)
    case (thrown fileIssues rules1)
    from thrown(1,3) have "\<not> counted eng world rules pf" by (simp add: counted_def)
    moreover
    have "filter (counted eng world rules1) files = filter (counted eng world rules) files"
      by (simp add: counted_same_reset[OF thrown(2)])
    ultimately show ?thesis using Cons.IH[OF thrown(4)] by simp
  next
    case (pushed fileIssues rules1)
    from pushed(1,3) have "counted eng world rules pf" by (simp add: counted_def)
    moreover
    have "filter (counted eng world rules1) files = filter (counted eng world rules) files"
      by (simp add: counted_same_reset[OF pushed(2)])
    ultimately show ?thesis using Cons.IH[OF pushed(4)] by simp
  qed
qed

lemma counted_never_throws:
  assumes "scanFiles eng world files acc n rules = Some (found, n', rules')"
    and "\<forall>k. \<not> spreadThrows eng push_fileIssues k"
  shows "filter (counted eng world rules) files = files"
  using assms(1)
proof (induction files arbitrary: acc n rules)
  case Nil
  then show ?case by simp
next
  case (Cons pf files)
  from Cons.prems show ?case
  proof (cases rule: scanFiles_Cons_cases)
    case (thrown fileIssues rules1)
    with assms(2) show ?thesis by simp
  next
    case (pushed fileIssues rules1)
    from pushed(1,3) have "counted eng world rules pf" by (simp add: counted_def)
    moreover from Cons.IH[OF pushed(4)]
    have "filter (counted eng world rules) files = files"
      by (simp add: counted_same_reset[OF pushed(2)])
    ultimately show ?thesis by simp
  qed
qed

lemma scanFiles_independent:
  "scanFiles eng world files acc n rules = Some (found, n', rules') \<Longrightarrow>
   map reset rules2 = map reset rules \<Longrightarrow>
   (\<forall>f \<in> set files. readFile world2 (ProjectFile.filePath f) = readFile world (ProjectFile.filePath f)) \<Longrightarrow>
   \<exists>rules2'. scanFiles eng world2 files acc n rules2 = Some (found, n', rules2') \<and>
       map reset rules2' = map reset rules \<and> map reset rules' = map reset rules"
proof (induction files arbitrary: acc n rules rules2)
  case Nil
  then show ?case by simp
next
  case (Cons pf files)
  from Cons.prems(3)
  have rf: "readFile world2 (ProjectFile.filePath pf) = readFile world (ProjectFile.filePath pf)"
    and rfs: "\<forall>f \<in> set files. readFile world2 (ProjectFile.filePath f) = readFile world (ProjectFile.filePath f)"
    by simp_all
  from Cons.prems(1) show ?case
  proof (cases rule: scanFiles_Cons_cases)
    case (thrown fileIssues rules1)
    from scanFile_independent[OF thrown(1) Cons.prems(2) rf] obtain rules2' where
      sf2: "scanFile eng world2 rules2 (ProjectFile.filePath pf) (ProjectFile.relativePath pf) =
              Some (Inr fileIssues, rules2')"
      and eq: "map reset rules2' = map reset rules"
      by blast
    from eq thrown(2) have "map reset rules2' = map reset rules1" by simp
    from Cons.IH[OF thrown(4) this rfs] obtain rules3 where
      "scanFiles eng world2 files acc n rules2' = Some (found, n', rules3)"
      "map reset rules3 = map reset rules1" "map reset rules' = map reset rules1"
      by blast
    with sf2 thrown(2,3) show ?thesis by simp
  next
    case (pushed fileIssues rules1)
    from scanFile_independent[OF pushed(1) Cons.prems(2) rf] obtain rules2' where
      sf2: "scanFile eng world2 rules2 (ProjectFile.filePath pf) (ProjectFile.relativePath pf) =
              Some (Inr fileIssues, rules2')"
      and eq: "map reset rules2' = map reset rules"
      by blast
    from eq pushed(2) have "map reset rules2' = map reset rules1" by simp
    from Cons.IH[OF pushed(4) this rfs] obtain rules3 where
      "scanFiles eng world2 files (acc @ fileIssues) (n + 1) rules2' = Some (found, n', rules3)"
      "map reset rules3 = map reset rules1" "map reset rules' = map reset rules1"
      by blast
    with sf2 pushed(2,3) show ?thesis by simp
  qed
qed

lemma scanFile_issues:
  assumes "scanFile eng world rules fp rp = Some (Inr fileIssues, rules1)"
    and "j \<in> set fileIssues"
  shows "\<exists>rule \<in> set rules. filePath j = fp \<and> relativePath j = rp \<and>
        type j = VulnerabilityPattern.type rule \<and> severity j = VulnerabilityPattern.severity rule \<and>
        cweId j = VulnerabilityPattern.cweId rule"
  using assms(1)
proof (cases rule: scanFile_cases)
  case (unreadable e)
  with assms(2) show ?thesis by simp
next
  case (scanned content found)
  with assms(2) scanRules_issues[OF scanned(3)] obtain rule k where
    "j = with_paths fp rp (mk_issue content (js_split content 10) rule k)" "rule \<in> set rules"
    by auto
  then show ?thesis by (intro bexI[of _ rule]) simp_all
qed

lemma same_reset_fields:
  assumes "map reset rules1 = map reset rules" and "rule1 \<in> set rules1"
  shows "\<exists>rule \<in> set rules. VulnerabilityPattern.type rule = VulnerabilityPattern.type rule1 \<and>
      VulnerabilityPattern.severity rule = VulnerabilityPattern.severity rule1 \<and>
      VulnerabilityPattern.cweId rule = VulnerabilityPattern.cweId rule1"
proof -
  from assms(2) have "reset rule1 \<in> set (map reset rules)" unfolding assms(1)[symmetric] by simp
  then obtain rule where "rule \<in> set rules" "reset rule = reset rule1" by auto
  then show ?thesis using reset_fields(1,2,6)[of rule] reset_fields(1,2,6)[of rule1]
    by (intro bexI[of _ rule]) simp_all
qed

lemma scanFiles_issues:
  "scanFiles eng world files acc n rules = Some (found, n', rules') \<Longrightarrow> i \<in> set found \<Longrightarrow>
   i \<in> set acc \<or>
   (\<exists>f \<in> set files. \<exists>rule \<in> set rules.
      filePath i = ProjectFile.filePath f \<and> relativePath i = ProjectFile.relativePath f \<and>
      type i = VulnerabilityPattern.type rule \<and> severity i = VulnerabilityPattern.severity rule \<and>
      cweId i = VulnerabilityPattern.cweId rule)"
proof (induction files arbitrary: acc n rules)
  case Nil
  then show ?case by simp
next
  case (Cons pf files)
  let ?fp = "ProjectFile.filePath pf" and ?rp = "ProjectFile.relativePath pf"
  have later: ?case
    if r1: "map reset rules1 = map reset rules"
    and ex: "\<exists>f \<in> set files. \<exists>rule \<in> set rules1.
      filePath i = ProjectFile.filePath f \<and> relativePath i = ProjectFile.relativePath f \<and>
      type i = VulnerabilityPattern.type rule \<and> severity i = VulnerabilityPattern.severity rule \<and>
      cweId i = VulnerabilityPattern.cweId rule" for rules1
  proof -
    from ex obtain f rule1 where "f \<in> set files" "rule1 \<in> set rules1"
      "filePath i = ProjectFile.filePath f" "relativePath i = ProjectFile.relativePath f"
      "type i = VulnerabilityPattern.type rule1" "severity i = VulnerabilityPattern.severity rule1"
      "cweId i = VulnerabilityPattern.cweId rule1" by blast
    with same_reset_fields[OF r1 this(2)] show ?thesis by (metis list.set_intros(2))
  qed
  from Cons.prems(1) show ?case
  proof (cases rule: scanFiles_Cons_cases)
    case (thrown fileIssues rules1)
    from Cons.IH[OF thrown(4) Cons.prems(2)] show ?thesis
    proof
      assume "i \<in> set acc"
      then show ?thesis by simp
    next
      assume "\<exists>f \<in> set files. \<exists>rule \<in> set rules1.
        filePath i = ProjectFile.filePath f \<and> relativePath i = ProjectFile.relativePath f \<and>
        type i = VulnerabilityPattern.type rule \<and> severity i = VulnerabilityPattern.severity rule \<and>
        cweId i = VulnerabilityPattern.cweId rule"
      with thrown(2) show ?thesis by (rule later)
    qed
  next
    case (pushed fileIssues rules1)
    from Cons.IH[OF pushed(4) Cons.prems(2)] show ?thesis
    proof
      assume "i \<in> set (acc @ fileIssues)"
      then consider "i \<in> set acc" | "i \<in> set fileIssues" by auto
      then show ?thesis
      proof cases
        case 1
        then show ?thesis by simp
      next
        case 2
        from scanFile_issues[OF pushed(1) 2] show ?thesis by auto
      qed
    next
      assume "\<exists>f \<in> set files. \<exists>rule \<in> set rules1.
        filePath i = ProjectFile.filePath f \<and> relativePath i = ProjectFile.relativePath f \<and>
        type i = VulnerabilityPattern.type rule \<and> severity i = VulnerabilityPattern.severity rule \<and>
        cweId i = VulnerabilityPattern.cweId rule"
      with pushed(2) show ?thesis by (rule later)
    qed
  qed
qed

lemma scanWorkspace_cases:
  assumes "scanWorkspace eng this world = Some (result, this')"
  obtains found scanned rules' where
    "scanFiles eng world
        (filter (\<lambda>f. isJsTs eng world (ProjectFile.filePath f)) (collectProjectFiles world))
        [] 0 (vulnerabilityPatterns this) = Some (found, scanned, rules')"
    "result = \<lparr>issues = found, filesScanned = scanned, totalIssues = int (length found),
        criticalCount = int (length (filter (\<lambda>i. severity i = critical) found)),
        highCount = int (length (filter (\<lambda>i. severity i = high) found)),
        mediumCount = int (length (filter (\<lambda>i. severity i = medium) found)),
        lowCount = int (length (filter (\<lambda>i. severity i = low) found)),
        scanDuration = endTime world - startTime world, timestamp = now world\<rparr>"
    "this' = this\<lparr>vulnerabilityPatterns := rules'\<rparr>"
  using assms by (auto simp: scanWorkspace_def isJsTs_def Let_def split: option.splits)

lemma severity_partition:
  "length xs = length (filter (\<lambda>i. severity i = critical) xs)
             + length (filter (\<lambda>i. severity i = high) xs)
             + length (filter (\<lambda>i. severity i = medium) xs)
             + length (filter (\<lambda>i. severity i = low) xs)"
proof (induction xs)
  case Nil
  then show ?case by simp
next
  case (Cons x xs)
  then show ?case by (cases "severity x") simp_all
qed

section \<open>The rule catalog\<close>

lemmas catalog_defs =
  initializePatterns_def entry_def regexp_def
  secret_re_def aws_re_def sql_concat_re_def sql_template_re_def innerHTML_re_def
  dangerously_re_def command_re_def path_re_def eval_re_def function_re_def random_re_def
  crypto_re_def proto_re_def redirect_re_def console_re_def cors_re_def stack_re_def
  ws_def quote_def sep_def req_def user_input_def star_def lazy_star_def plus_def opt_def

lemma catalog_progress:
  "\<forall>rule \<in> set initializePatterns.
     global (pattern rule) \<and> 0 < min_len (source (pattern rule)) \<and> lastIndex (pattern rule) = 0"
  by (simp add: catalog_defs)

lemma catalog_kinds:
  "VulnerabilityPattern.type ` set initializePatterns =
     {hardcoded_secret, sql_injection, xss_vulnerability, command_injection, path_traversal,
      unsafe_eval, insecure_random, weak_crypto, prototype_pollution, open_redirect,
      sensitive_data_exposure, cors_misconfiguration, information_disclosure}"
  by (simp add: initializePatterns_def entry_def)

lemma catalog_reset: "map reset initializePatterns = initializePatterns"
  by (simp add: initializePatterns_def entry_def regexp_def reset_def)

lemma findPatternMatches_terminates:
  assumes "global (pattern rule)" and "0 < min_len (source (pattern rule))"
  shows "\<exists>found. findPatternMatches content lines rule = Some (found, reset rule)"
proof -
  from assms findLoop_terminates[of "(pattern rule)\<lparr>lastIndex := 0\<rparr>" content lines rule "[]"]
  obtain y where y: "findLoop content lines rule ((pattern rule)\<lparr>lastIndex := 0\<rparr>) [] = Some y"
    by auto
  then have "findPatternMatches content lines rule = Some (fst y, rule\<lparr>pattern := snd y\<rparr>)"
    by (simp add: findPatternMatches_def split: prod.splits)
  moreover from findPatternMatches_reset[OF this] have "rule\<lparr>pattern := snd y\<rparr> = reset rule" .
  ultimately show ?thesis by simp
qed

section \<open>Running the catalog on the example inputs\<close>

text \<open>
  \<open>exec\<close> on a fresh regular-expression object and on one whose \<open>lastIndex\<close> is inside
  the input, in terms of the search of \<open>match_from\<close>.
\<close>

lemma exec_regexp:
  "exec (regexp r ic) S =
     (case match_from ic r S None S of
        None \<Rightarrow> (None, regexp r ic)
      | Some (i, e) \<Rightarrow> (Some (i, e), (regexp r ic)\<lparr>lastIndex := e\<rparr>))"
  by (simp add: exec_def regexp_def split: option.splits)

lemma exec_regexp_at:
  assumes "0 < k" and "k \<le> length S"
  shows "exec ((regexp r ic)\<lparr>lastIndex := k\<rparr>) S =
     (case match_from ic r S (Some (S ! (k - 1))) (drop k S) of
        None \<Rightarrow> (None, regexp r ic)
      | Some (i, e) \<Rightarrow> (Some (i, e), (regexp r ic)\<lparr>lastIndex := e\<rparr>))"
  using assms by (simp add: exec_def regexp_def split: option.splits)

lemma entry_pattern [simp]: "pattern (entry t s p a b c d e f) = p"
  by (simp add: entry_def)

lemma regexp_reset [simp]: "(regexp r ic)\<lparr>lastIndex := 0\<rparr> = regexp r ic"
  by (simp add: regexp_def)

lemma entry_reset [simp]:
  "(entry t s (regexp r ic) a b c d e f)\<lparr>pattern := regexp r ic\<rparr> =
     entry t s (regexp r ic) a b c d e f"
  by (simp add: entry_def)

text \<open>A rule whose pattern matches nowhere, and one whose pattern matches exactly once.\<close>

lemma findPatternMatches_none:
  assumes "match_from ic r content None content = None"
  shows "findPatternMatches content lines (entry t s (regexp r ic) a b c d e f) =
           Some ([], entry t s (regexp r ic) a b c d e f)"
  using assms by (simp add: findPatternMatches_def findLoop_step exec_regexp)

lemma findPatternMatches_one:
  assumes "match_from ic r content None content = Some (i, k)"
    and "0 < k" and "k \<le> length content"
    and "match_from ic r content (Some (content ! (k - 1))) (drop k content) = None"
  shows "findPatternMatches content lines (entry t s (regexp r ic) a b c d e f) =
           Some (emitted content lines (entry t s (regexp r ic) a b c d e f) i,
                 entry t s (regexp r ic) a b c d e f)"
proof -
  let ?rule = "entry t s (regexp r ic) a b c d e f"
  have "findLoop content lines ?rule (regexp r ic) [] =
          findLoop content lines ?rule ((regexp r ic)\<lparr>lastIndex := k\<rparr>)
            (emitted content lines ?rule i)"
    by (subst findLoop_step) (simp add: exec_regexp assms(1))
  also have "\<dots> = Some (emitted content lines ?rule i, regexp r ic)"
    using assms(4) by (subst findLoop_step) (simp add: exec_regexp_at[OF assms(2,3)])
  finally show ?thesis by (simp add: findPatternMatches_def)
qed

text \<open>
  Rules that match nowhere leave the issues as they are, also when the \<open>push\<close> of no
  match throws.
\<close>

lemma scanRules_quiet:
  "\<forall>rule \<in> set rules. findPatternMatches content lines rule = Some ([], rule) \<Longrightarrow>
   scanRules eng content lines fp rp rules acc = Some (acc, rules)"
  by (induction rules) (simp_all add: scanRules_Cons del: scanRules.simps(2))

lemmas eval_simps =
  m.simps js_def units_def ws_def quote_def sep_def req_def user_input_def star_def
  lazy_star_def plus_def opt_def canonicalize_def isWhiteSpace_def isWordChar_def Let_def

lemmas position_simps =
  emitted_def suppressed_def mk_issue_def lineNumber_of_def lineContent_of_def column_of_def
  isInComment_def substring_def indexOf_def lastIndexOf_def js_def Let_def

text \<open>The search of each pattern of the catalog in scenario A and in scenario C.\<close>

lemma matchA_secret_re: "match_from True secret_re scenarioA None scenarioA = Some (6, 41)"
  by (simp add: scenarioA_def secret_re_def eval_simps)

lemma matchA_aws_re: "match_from True aws_re scenarioA None scenarioA = None"
  by (simp add: scenarioA_def aws_re_def eval_simps)

lemma matchA_sql_concat_re: "match_from True sql_concat_re scenarioA None scenarioA = None"
  by (simp add: scenarioA_def sql_concat_re_def eval_simps)

lemma matchA_sql_template_re: "match_from False sql_template_re scenarioA None scenarioA = None"
  by (simp add: scenarioA_def sql_template_re_def eval_simps)

lemma matchA_innerHTML_re: "match_from False innerHTML_re scenarioA None scenarioA = None"
  by (simp add: scenarioA_def innerHTML_re_def eval_simps)

lemma matchA_dangerously_re: "match_from False dangerously_re scenarioA None scenarioA = None"
  by (simp add: scenarioA_def dangerously_re_def eval_simps)

lemma matchA_command_re: "match_from True command_re scenarioA None scenarioA = None"
  by (simp add: scenarioA_def command_re_def eval_simps)

lemma matchA_path_re: "match_from True path_re scenarioA None scenarioA = None"
  by (simp add: scenarioA_def path_re_def eval_simps)

lemma matchA_eval_re: "match_from False eval_re scenarioA None scenarioA = None"
  by (simp add: scenarioA_def eval_re_def eval_simps)

lemma matchA_function_re: "match_from False function_re scenarioA None scenarioA = None"
  by (simp add: scenarioA_def function_re_def eval_simps)

lemma matchA_random_re: "match_from False random_re scenarioA None scenarioA = None"
  by (simp add: scenarioA_def random_re_def eval_simps)

lemma matchA_crypto_re: "match_from True crypto_re scenarioA None scenarioA = None"
  by (simp add: scenarioA_def crypto_re_def eval_simps)

lemma matchA_proto_re: "match_from False proto_re scenarioA None scenarioA = None"
  by (simp add: scenarioA_def proto_re_def eval_simps)

lemma matchA_redirect_re: "match_from True redirect_re scenarioA None scenarioA = None"
  by (simp add: scenarioA_def redirect_re_def eval_simps)

lemma matchA_console_re: "match_from True console_re scenarioA None scenarioA = None"
  by (simp add: scenarioA_def console_re_def eval_simps)

lemma matchA_cors_re: "match_from True cors_re scenarioA None scenarioA = None"
  by (simp add: scenarioA_def cors_re_def eval_simps)

lemma matchA_stack_re: "match_from False stack_re scenarioA None scenarioA = None"
  by (simp add: scenarioA_def stack_re_def eval_simps)

lemma matchC_secret_re: "match_from True secret_re scenarioC None scenarioC = None"
  by (simp add: scenarioC_def secret_re_def eval_simps)

lemma matchC_aws_re: "match_from True aws_re scenarioC None scenarioC = None"
  by (simp add: scenarioC_def aws_re_def eval_simps)

lemma matchC_sql_concat_re: "match_from True sql_concat_re scenarioC None scenarioC = None"
  by (simp add: scenarioC_def sql_concat_re_def eval_simps)

lemma matchC_sql_template_re: "match_from False sql_template_re scenarioC None scenarioC = None"
  by (simp add: scenarioC_def sql_template_re_def eval_simps)

lemma matchC_innerHTML_re: "match_from False innerHTML_re scenarioC None scenarioC = None"
  by (simp add: scenarioC_def innerHTML_re_def eval_simps)

lemma matchC_dangerously_re: "match_from False dangerously_re scenarioC None scenarioC = None"
  by (simp add: scenarioC_def dangerously_re_def eval_simps)

lemma matchC_command_re: "match_from True command_re scenarioC None scenarioC = None"
  by (simp add: scenarioC_def command_re_def eval_simps)

lemma matchC_path_re: "match_from True path_re scenarioC None scenarioC = None"
  by (simp add: scenarioC_def path_re_def eval_simps)

lemma matchC_eval_re: "match_from False eval_re scenarioC None scenarioC = Some (3, 8)"
  by (simp add: scenarioC_def eval_re_def eval_simps)

lemma matchC_function_re: "match_from False function_re scenarioC None scenarioC = None"
  by (simp add: scenarioC_def function_re_def eval_simps)

lemma matchC_random_re: "match_from False random_re scenarioC None scenarioC = None"
  by (simp add: scenarioC_def random_re_def eval_simps)

lemma matchC_crypto_re: "match_from True crypto_re scenarioC None scenarioC = None"
  by (simp add: scenarioC_def crypto_re_def eval_simps)

lemma matchC_proto_re: "match_from False proto_re scenarioC None scenarioC = None"
  by (simp add: scenarioC_def proto_re_def eval_simps)

lemma matchC_redirect_re: "match_from True redirect_re scenarioC None scenarioC = None"
  by (simp add: scenarioC_def redirect_re_def eval_simps)

lemma matchC_console_re: "match_from True console_re scenarioC None scenarioC = None"
  by (simp add: scenarioC_def console_re_def eval_simps)

lemma matchC_cors_re: "match_from True cors_re scenarioC None scenarioC = None"
  by (simp add: scenarioC_def cors_re_def eval_simps)

lemma matchC_stack_re: "match_from False stack_re scenarioC None scenarioC = None"
  by (simp add: scenarioC_def stack_re_def eval_simps)

lemma matchA_secret_again:
  "match_from True secret_re scenarioA (Some (scenarioA ! (41 - 1))) (drop 41 scenarioA) = None"
  by (simp add: scenarioA_def secret_re_def eval_simps)

lemma matchC_eval_again:
  "match_from False eval_re scenarioC (Some (scenarioC ! (8 - 1))) (drop 8 scenarioC) = None"
  by (simp add: scenarioC_def eval_re_def eval_simps)

lemma emitted_scenarioC: "emitted scenarioC (js_split scenarioC 10) rule 3 = []"
  by (simp add: scenarioC_def position_simps)

lemma emitted_scenarioA:
  "emitted scenarioA (js_split scenarioA 10) rule 6 = [mk_issue scenarioA (js_split scenarioA 10) rule 6]"
  "lineNumber_of scenarioA 6 = 1" "column_of scenarioA 6 = 7"
  by (simp_all add: scenarioA_def position_simps)

lemma scan_scenarioC:
  "scanRules eng scenarioC (js_split scenarioC 10) fp rp initializePatterns [] =
     Some ([], initializePatterns)"
proof (rule scanRules_quiet)
  have len: "(0::nat) < 8" "8 \<le> length scenarioC" by (simp_all add: scenarioC_def js_def)
  note ev = findPatternMatches_one[OF matchC_eval_re len matchC_eval_again]
  show "\<forall>rule \<in> set initializePatterns.
          findPatternMatches scenarioC (js_split scenarioC 10) rule = Some ([], rule)"
    unfolding initializePatterns_def
    by (simp add: findPatternMatches_none ev emitted_scenarioC
          matchC_secret_re matchC_aws_re matchC_sql_concat_re matchC_sql_template_re
          matchC_innerHTML_re matchC_dangerously_re matchC_command_re matchC_path_re
          matchC_function_re matchC_random_re matchC_crypto_re matchC_proto_re
          matchC_redirect_re matchC_console_re matchC_cors_re matchC_stack_re)
qed

lemma scan_scenarioA:
  assumes "\<not> spreadThrows eng push_matches 1"
  shows "scanRules eng scenarioA (js_split scenarioA 10) fp rp initializePatterns [] =
     Some ([with_paths fp rp (mk_issue scenarioA (js_split scenarioA 10) (hd initializePatterns) 6)],
           initializePatterns)"
proof -
  have len: "(0::nat) < 41" "41 \<le> length scenarioA" by (simp_all add: scenarioA_def js_def)
  note ev = findPatternMatches_one[OF matchA_secret_re len matchA_secret_again]
  have quiet: "\<forall>rule \<in> set (tl initializePatterns).
          findPatternMatches scenarioA (js_split scenarioA 10) rule = Some ([], rule)"
    unfolding initializePatterns_def
    by (simp add: findPatternMatches_none
          matchA_aws_re matchA_sql_concat_re matchA_sql_template_re
          matchA_innerHTML_re matchA_dangerously_re matchA_command_re matchA_path_re
          matchA_eval_re matchA_function_re matchA_random_re matchA_crypto_re matchA_proto_re
          matchA_redirect_re matchA_console_re matchA_cors_re matchA_stack_re)
  have hd: "findPatternMatches scenarioA (js_split scenarioA 10) (hd initializePatterns) =
      Some ([mk_issue scenarioA (js_split scenarioA 10) (hd initializePatterns) 6],
            hd initializePatterns)"
    unfolding initializePatterns_def by (simp add: ev emitted_scenarioA(1))
  have split: "initializePatterns = hd initializePatterns # tl initializePatterns"
    by (simp add: initializePatterns_def)
  show ?thesis using assms
    by (subst (1 3) split) (simp add: scanRules_Cons hd scanRules_quiet[OF quiet] del: scanRules.simps(2))
qed

section \<open>The example workspace\<close>

lemma example_engine_fields [simp]:
  "toLowerCase example_engine = toLowerCase_ascii"
  "spreadThrows example_engine site n \<longleftrightarrow> 125000 < n"
  "toLowerCase unbounded_engine = toLowerCase_ascii"
  "spreadThrows unbounded_engine site n \<longleftrightarrow> False"
  "toLowerCase tight_engine = toLowerCase_ascii"
  "spreadThrows tight_engine site n \<longleftrightarrow> site = push_fileIssues \<and> 0 < n"
  by (simp_all add: example_engine_def unbounded_engine_def tight_engine_def)

lemma example_extensions:
  assumes "toLowerCase eng = toLowerCase_ascii"
  shows "isJsTs eng (example_world fs) (js ''/w/a.js'')"
    and "\<not> isJsTs eng (example_world fs) (js ''/w/notes.txt'')"
  using assms
  by (simp_all add: isJsTs_def example_world_def posix_extname_def lastIndexOf_def
        toLowerCase_ascii_def jstsExtensions_def js_def Let_def)

lemma example_jsts_files:
  assumes "toLowerCase (eng::engine) = toLowerCase_ascii"
  shows "filter (\<lambda>f. toLowerCase eng (extname (example_world fs) (ProjectFile.filePath f))
              \<in> set jstsExtensions) (collectProjectFiles (example_world fs)) =
     [\<lparr>ProjectFile.filePath = js ''/w/a.js'', relativePath = js ''a.js''\<rparr>]"
  using example_extensions[OF assms, of fs]
  by (simp add: isJsTs_def example_world_def example_files_def)

lemma issueA_fields:
  "type issueA = hardcoded_secret" "severity issueA = critical"
  "cweId issueA = Some (js ''CWE-798'')" "line issueA = 1" "column issueA = 7"
  "filePath issueA = js ''/w/a.js''"
  by (simp_all add: issueA_def initializePatterns_def entry_def emitted_scenarioA)

lemma scanFile_worldA:
  assumes "\<not> spreadThrows eng push_matches 1"
  shows "scanFile eng (example_world (reads scenarioA)) initializePatterns
           (js ''/w/a.js'') (js ''a.js'') = Some (Inr [issueA], initializePatterns)"
  by (simp add: scanFile_def example_world_def reads_def scan_scenarioA[OF assms] issueA_def)

lemma scanFile_worldC:
  "scanFile eng (example_world (reads scenarioC)) initializePatterns (js ''/w/a.js'') (js ''a.js'') =
     Some (Inr [], initializePatterns)"
  by (simp add: scanFile_def example_world_def reads_def scan_scenarioC)

lemma example_world_fields [simp]:
  "startTime (example_world fs) = 0" "endTime (example_world fs) = 5" "now (example_world fs) = 100"
  by (simp_all add: example_world_def)

text \<open>
  The scan of the example workspace with scenario A in it, on an engine in which the
  \<open>push\<close> of the one issue goes through, and on one in which it throws.
\<close>

lemma scan_worldA_on:
  assumes "toLowerCase eng = toLowerCase_ascii"
    and "\<not> spreadThrows eng push_matches 1" and "\<not> spreadThrows eng push_fileIssues 1"
  shows "scanWorkspace eng new_SecurityScanner (example_world (reads scenarioA)) =
     Some (resultA, new_SecurityScanner)"
  using scanFile_worldA[OF assms(2)] assms(3)
  by (simp add: scanWorkspace_def Let_def example_jsts_files[OF assms(1)] new_SecurityScanner_def
        issueA_fields resultA_def)

lemma scan_worldA_thrown:
  assumes "toLowerCase eng = toLowerCase_ascii"
    and "\<not> spreadThrows eng push_matches 1" and "spreadThrows eng push_fileIssues 1"
  shows "scanWorkspace eng new_SecurityScanner (example_world (reads scenarioA)) =
     Some (resultA\<lparr>issues := [], filesScanned := 0, totalIssues := 0, criticalCount := 0\<rparr>,
           new_SecurityScanner)"
  using scanFile_worldA[OF assms(2)] assms(3)
  by (simp add: scanWorkspace_def Let_def example_jsts_files[OF assms(1)] new_SecurityScanner_def
        resultA_def)

lemma scan_worldA:
  "scanWorkspace example_engine new_SecurityScanner (example_world (reads scenarioA)) =
     Some (resultA, new_SecurityScanner)"
  by (rule scan_worldA_on) simp_all

lemma scanFile_unreadable:
  "scanFile eng (example_world unreadable) rules fp rp = Some (Inr [], rules)"
  by (simp add: scanFile_def example_world_def unreadable_def)

lemma scan_unreadable_on:
  assumes "toLowerCase eng = toLowerCase_ascii" and "\<not> spreadThrows eng push_fileIssues 0"
  shows "scanWorkspace eng new_SecurityScanner (example_world unreadable) =
     Some (\<lparr>issues = [], filesScanned = 1, totalIssues = 0, criticalCount = 0,
             highCount = 0, mediumCount = 0, lowCount = 0, scanDuration = 5,
             timestamp = 100\<rparr>, new_SecurityScanner)"
  using assms(2)
  by (simp add: scanWorkspace_def Let_def example_jsts_files[OF assms(1)] new_SecurityScanner_def
        scanFile_unreadable)

lemma scan_unreadable:
  "scanWorkspace example_engine new_SecurityScanner (example_world unreadable) =
     Some (\<lparr>issues = [], filesScanned = 1, totalIssues = 0, criticalCount = 0,
             highCount = 0, mediumCount = 0, lowCount = 0, scanDuration = 5,
             timestamp = 100\<rparr>, new_SecurityScanner)"
  by (rule scan_unreadable_on) simp_all

lemma counted_worldA:
  assumes "\<not> spreadThrows eng push_matches 1"
  shows "counted eng (example_world (reads scenarioA)) initializePatterns
           \<lparr>ProjectFile.filePath = js ''/w/a.js'', relativePath = js ''a.js''\<rparr> \<longleftrightarrow>
         \<not> spreadThrows eng push_fileIssues 1"
  by (simp add: counted_def scanFile_worldA[OF assms])

section \<open>Risk classification\<close>

text \<open>
  C2. For every scan result, the risk classifier returns the level of the first clause
  of the decision table that holds, the clauses taken in the order CRITICAL if
  criticalCount > 0, HIGH if highCount >= 5, MEDIUM if highCount > 0 or
  mediumCount >= 10, LOW if mediumCount > 0 or lowCount > 0, and CLEAN when none holds.
\<close>

theorem calculateRiskLevel_first_match:
  "calculateRiskLevel result = firstMatch riskTable CLEAN result"
  by (simp add: calculateRiskLevel_def riskTable_def)


section \<open>Aggregate counts\<close>

text \<open>
  C1. For every scan result returned by scanWorkspace, totalIssues is the length of the
  issue list, each of criticalCount, highCount, mediumCount and lowCount is the number of
  issues of that severity in the list, and totalIssues is the sum of the four counts.
\<close>

theorem scan_counts_partition:
  assumes "scanWorkspace eng this world = Some (result, this')"
  shows "totalIssues result = int (length (issues result)) \<and>
         criticalCount result = int (length (filter (\<lambda>i. severity i = critical) (issues result))) \<and>
         highCount result = int (length (filter (\<lambda>i. severity i = high) (issues result))) \<and>
         mediumCount result = int (length (filter (\<lambda>i. severity i = medium) (issues result))) \<and>
         lowCount result = int (length (filter (\<lambda>i. severity i = low) (issues result))) \<and>
         totalIssues result =
           criticalCount result + highCount result + mediumCount result + lowCount result"
  using assms
proof (cases rule: scanWorkspace_cases)
  case (1 found scanned rules')
  show ?thesis unfolding 1(2) using severity_partition[of found] by simp
qed


theorem scan_counts_partition_witness:
  "scanWorkspace example_engine new_SecurityScanner (example_world (reads scenarioA)) =
     Some (resultA, new_SecurityScanner) \<and>
   totalIssues resultA = int (length (issues resultA)) \<and>
   criticalCount resultA = int (length (filter (\<lambda>i. severity i = critical) (issues resultA))) \<and>
   totalIssues resultA =
     criticalCount resultA + highCount resultA + mediumCount resultA + lowCount resultA"
  using scan_counts_partition[OF scan_worldA] scan_worldA by simp

section \<open>Unreadable files\<close>

text \<open>
  C3. A workspace whose only JavaScript file cannot be read: the scan goes on and returns
  a result with no issue, and the file is counted in filesScanned. The error of
  \<open>readFile\<close> is caught inside \<open>scanFile\<close>, which then returns normally with no issue;
  the \<open>push\<close> of no issue spreads no argument and does not throw, so the \<open>catch\<close> of the
  loop in \<open>scanWorkspace\<close>, the one that skips the increment, is not entered for this
  file.
\<close>

theorem unreadable_file_is_counted:
  "scanWorkspace example_engine new_SecurityScanner (example_world unreadable) =
     Some (\<lparr>issues = [], filesScanned = 1, totalIssues = 0, criticalCount = 0,
             highCount = 0, mediumCount = 0, lowCount = 0, scanDuration = 5,
             timestamp = 100\<rparr>, new_SecurityScanner)"
  by (rule scan_unreadable)

section \<open>Scenario A\<close>

text \<open>
  C7. Scanning a file whose content is the single line
  \<open>const apiKey = "sk_live_abcdef1234567890";\<close> gives exactly one issue, of kind
  hardcoded-secret, with severity critical, cweId CWE-798 and line 1. This holds on
  every engine in which the \<open>push\<close> of a single match does not throw.
\<close>

theorem scenarioA_one_issue:
  assumes "\<not> spreadThrows eng push_matches 1"
  shows "\<exists>i. scanFile eng (example_world (reads scenarioA)) initializePatterns
          (js ''/w/a.js'') (js ''a.js'') = Some (Inr [i], initializePatterns) \<and>
       type i = hardcoded_secret \<and> severity i = critical \<and>
       cweId i = Some (js ''CWE-798'') \<and> line i = 1"
  using scanFile_worldA[OF assms] issueA_fields by blast

theorem scenarioA_one_issue_witness:
  "\<not> spreadThrows example_engine push_matches 1 \<and>
   (\<exists>i. scanFile example_engine (example_world (reads scenarioA)) initializePatterns
          (js ''/w/a.js'') (js ''a.js'') = Some (Inr [i], initializePatterns) \<and>
       type i = hardcoded_secret \<and> severity i = critical \<and>
       cweId i = Some (js ''CWE-798'') \<and> line i = 1)"
proof -
  have a: "\<not> spreadThrows example_engine push_matches 1" by simp
  from a scenarioA_one_issue[OF a] show ?thesis by (rule conjI)
qed


section \<open>Termination of the match loop\<close>

lemma exec_star:
  "exec (regexp (star (Chr 97)) False) (js ''b'') =
     (Some (0, 0), regexp (star (Chr 97)) False)"
  by (simp add: exec_def regexp_def star_def js_def Let_def canonicalize_def m.simps)

lemma star_loop_never_leaves:
  "findLoop content lines rule R acc = Some y \<Longrightarrow>
     content = js ''b'' \<Longrightarrow> R \<noteq> regexp (star (Chr 97)) False"
proof (induction rule: findLoop_induct)
  case (stop R acc R')
  then show ?case using exec_star by auto
next
  case (step R acc i e R' y)
  then show ?case using exec_star by auto
qed

text \<open>
  C5, as stated: the loop ends for every pattern, also one that can match the empty
  string. The pattern \<open>/a*/g\<close> matches the empty string at index 0 of the content
  \<open>b\<close>; \<open>exec\<close> then leaves \<open>lastIndex\<close> at 0, the next call finds the same match,
  and the loop of \<open>findPatternMatches\<close> never returns.
\<close>

theorem empty_match_loops_forever:
  "exec (pattern star_rule) (js ''b'') = (Some (0, 0), pattern star_rule) \<and>
   findPatternMatches (js ''b'') (js_split (js ''b'') 10) star_rule = None"
proof -
  have p: "pattern star_rule = regexp (star (Chr 97)) False"
    by (simp add: star_rule_def)
  have "findLoop (js ''b'') lines star_rule (regexp (star (Chr 97)) False) acc = None" for lines acc
    using star_loop_never_leaves[of "js ''b''" lines star_rule "regexp (star (Chr 97)) False" acc]
    by (cases "findLoop (js ''b'') lines star_rule (regexp (star (Chr 97)) False) acc") auto
  with p exec_star show ?thesis by (simp add: findPatternMatches_def)
qed

text \<open>
  C5, amended. For every rule of the catalog, every content and every list of lines, the
  loop of \<open>findPatternMatches\<close> ends. No pattern of the catalog matches the empty
  string: whatever \<open>lastIndex\<close> the regular-expression object of the rule holds, a
  match that \<open>exec\<close> reports starts at or after it and ends behind its start, and
  \<open>lastIndex\<close> becomes its end.
\<close>

theorem catalog_loop_terminates:
  assumes "rule \<in> set initializePatterns"
  shows "(\<exists>found rule'. findPatternMatches content lines rule = Some (found, rule')) \<and>
         (\<forall>k i e R'. exec ((pattern rule)\<lparr>lastIndex := k\<rparr>) content = (Some (i, e), R') \<longrightarrow>
            k \<le> i \<and> i < e \<and> lastIndex R' = e)"
proof -
  from assms catalog_progress have g: "global (pattern rule)"
    and p: "0 < min_len (source (pattern rule))" by auto
  from findPatternMatches_terminates[OF g p]
  have a: "\<exists>found rule'. findPatternMatches content lines rule = Some (found, rule')"
    by blast
  have b: "k \<le> i \<and> i < e \<and> lastIndex R' = e"
    if "exec ((pattern rule)\<lparr>lastIndex := k\<rparr>) content = (Some (i, e), R')" for k i e R'
    using exec_advance[OF that] g p by simp
  from a b show ?thesis by blast
qed

lemma eval_rule_entry:
  "eval_rule = entry unsafe_eval critical (regexp eval_re False)
       ''Unsafe use of eval()''
       ''eval() can execute arbitrary code and is extremely dangerous''
       ''Remove eval() and use safer alternatives like JSON.parse()''
       ''CWE-95'' ''A03:2021 - Injection'' conf_high"
  by (simp add: eval_rule_def initializePatterns_def)

lemma eval_rule_in_catalog: "eval_rule \<in> set initializePatterns"
  by (simp add: eval_rule_entry initializePatterns_def)

theorem catalog_loop_terminates_witness:
  "eval_rule \<in> set initializePatterns \<and>
   (\<exists>found rule'. findPatternMatches scenarioC (js_split scenarioC 10) eval_rule =
      Some (found, rule')) \<and>
   exec ((pattern eval_rule)\<lparr>lastIndex := 0\<rparr>) scenarioC =
      (Some (3, 8), (pattern eval_rule)\<lparr>lastIndex := 8\<rparr>) \<and>
   (0::nat) \<le> 3 \<and> (3::nat) < 8"
proof -
  have ex: "exec ((pattern eval_rule)\<lparr>lastIndex := 0\<rparr>) scenarioC =
      (Some (3, 8), (pattern eval_rule)\<lparr>lastIndex := 8\<rparr>)"
    by (simp add: eval_rule_entry exec_regexp matchC_eval_re)
  from catalog_loop_terminates[OF eval_rule_in_catalog, of scenarioC "js_split scenarioC 10"]
    eval_rule_in_catalog ex
  show ?thesis by blast
qed

section \<open>Comment suppression\<close>

lemma match_blockFile:
  "match_from False eval_re blockFile None blockFile = Some (3, 8)"
  "match_from False eval_re blockFile (Some (blockFile ! (8 - 1))) (drop 8 blockFile) = None"
  by (simp_all add: blockFile_def eval_re_def eval_simps)

lemma match_mixedLine:
  "match_from False eval_re mixedLine None mixedLine = Some (3, 8)"
  "match_from False eval_re mixedLine (Some (mixedLine ! (8 - 1))) (drop 8 mixedLine) = None"
  by (simp_all add: mixedLine_def eval_re_def eval_simps)

lemma match_tailComment:
  "match_from False eval_re tailComment None tailComment = Some (0, 5)"
  "match_from False eval_re tailComment (Some (tailComment ! (5 - 1))) (drop 5 tailComment) = None"
  by (simp_all add: tailComment_def eval_re_def eval_simps)

lemma position_blockFile:
  "js_split blockFile 10 = [js ''/*'', js ''eval(x)'', js ''*/'']"
  "lineNumber_of blockFile 3 = 2" "column_of blockFile 3 = 1"
  "emitted blockFile (js_split blockFile 10) rule 3 =
     [mk_issue blockFile (js_split blockFile 10) rule 3]"
  by (simp_all add: blockFile_def position_simps)

lemma position_mixedLine:
  "lineNumber_of mixedLine 3 = 1" "column_of mixedLine 3 = 4"
  "lineContent_of mixedLine (js_split mixedLine 10) 3 = mixedLine"
  "emitted mixedLine (js_split mixedLine 10) rule 3 = []"
  "indexOf mixedLine (js ''//'') = 12"
  by (simp_all add: mixedLine_def position_simps)

lemma position_tailComment:
  "lineNumber_of tailComment 0 = 1" "column_of tailComment 0 = 1"
  "lineContent_of tailComment (js_split tailComment 10) 0 = tailComment"
  "emitted tailComment (js_split tailComment 10) rule 0 =
     [mk_issue tailComment (js_split tailComment 10) rule 0]"
  by (simp_all add: tailComment_def position_simps)

lemma position_scenarioC:
  "lineNumber_of scenarioC 3 = 1" "column_of scenarioC 3 = 4"
  "lineContent_of scenarioC (js_split scenarioC 10) 3 = scenarioC"
  by (simp_all add: scenarioC_def position_simps)

lemma findPatternMatches_eval_rule:
  "findPatternMatches blockFile (js_split blockFile 10) eval_rule =
     Some ([mk_issue blockFile (js_split blockFile 10) eval_rule 3], eval_rule)"
  "findPatternMatches mixedLine (js_split mixedLine 10) eval_rule = Some ([], eval_rule)"
  "findPatternMatches tailComment (js_split tailComment 10) eval_rule =
     Some ([mk_issue tailComment (js_split tailComment 10) eval_rule 0], eval_rule)"
  "findPatternMatches scenarioC (js_split scenarioC 10) eval_rule = Some ([], eval_rule)"
proof -
  have len: "(0::nat) < 8" "8 \<le> length blockFile" "8 \<le> length mixedLine"
    "(0::nat) < 5" "5 \<le> length tailComment" "8 \<le> length scenarioC"
    by (simp_all add: blockFile_def mixedLine_def tailComment_def scenarioC_def js_def)
  show "findPatternMatches blockFile (js_split blockFile 10) eval_rule =
     Some ([mk_issue blockFile (js_split blockFile 10) eval_rule 3], eval_rule)"
    unfolding eval_rule_entry
    using findPatternMatches_one[OF match_blockFile(1) len(1,2) match_blockFile(2)]
    by (simp add: position_blockFile(4))
  show "findPatternMatches mixedLine (js_split mixedLine 10) eval_rule = Some ([], eval_rule)"
    unfolding eval_rule_entry
    using findPatternMatches_one[OF match_mixedLine(1) len(1,3) match_mixedLine(2)]
    by (simp add: position_mixedLine(4))
  show "findPatternMatches tailComment (js_split tailComment 10) eval_rule =
     Some ([mk_issue tailComment (js_split tailComment 10) eval_rule 0], eval_rule)"
    unfolding eval_rule_entry
    using findPatternMatches_one[OF match_tailComment(1) len(4,5) match_tailComment(2)]
    by (simp add: position_tailComment(4))
  show "findPatternMatches scenarioC (js_split scenarioC 10) eval_rule = Some ([], eval_rule)"
    unfolding eval_rule_entry
    using findPatternMatches_one[OF matchC_eval_re len(1,6) matchC_eval_again]
    by (simp add: emitted_scenarioC)
qed

lemma visits_first_match:
  assumes "match_from ic r content None content = Some (i, e)"
  shows "visits content ((regexp r ic)\<lparr>lastIndex := 0\<rparr>) i"
  by (rule visits.first[where e = e and R' = "(regexp r ic)\<lparr>lastIndex := e\<rparr>"])
     (simp add: exec_regexp assms)

lemma eval_rule_pattern: "pattern eval_rule = regexp eval_re False"
  by (simp add: eval_rule_entry)

text \<open>
  C4, as stated: a match is suppressed when its line lies behind a block-comment opener
  of an earlier line whose closer has not come yet. In a file with the three lines
  \<open>/*\<close>, \<open>eval(x)\<close> and \<open>*/\<close> the second line starts inside the comment, the filter
  does not suppress the match on it, and the scan reports that match as an issue.
\<close>

theorem block_comment_across_lines_counterexample:
  "in_open_block (js_split blockFile 10) 1 \<and>
   \<not> isInComment (js_split blockFile 10 ! 1) 1 \<and>
   lineNumber_of blockFile 3 = 2 \<and> column_of blockFile 3 = 1 \<and>
   findPatternMatches blockFile (js_split blockFile 10) eval_rule =
     Some ([mk_issue blockFile (js_split blockFile 10) eval_rule 3], eval_rule)"
proof -
  have "in_open_block (js_split blockFile 10) 1"
    by (simp add: position_blockFile(1) in_open_block_def js_def)
  moreover have "\<not> isInComment (js_split blockFile 10 ! 1) 1"
    by (simp add: position_blockFile(1) position_simps)
  ultimately show ?thesis
    using position_blockFile(2,3) findPatternMatches_eval_rule(1) by simp
qed

text \<open>
  C4, amended. The comment filter sees the text of the match's line and the match's
  column only. It suppresses the match exactly when, on that line, \<open>//\<close> starts before
  the match's column, or \<open>/*\<close> starts before the match's column and no \<open>*/\<close> that
  starts before the match's column starts at or after that \<open>/*\<close>. Columns count from
  1 and the indices \<open>k\<close> and \<open>j\<close> from 0, so a marker of two code units at index \<open>k\<close> starts
  before column \<open>col\<close> when \<open>k + 2 \<le> col\<close>.
\<close>

theorem isInComment_line_local:
  "isInComment text col \<longleftrightarrow>
     (\<exists>k. marker_at (js ''//'') text k \<and> int k + 2 \<le> col) \<or>
     (\<exists>k. marker_at (js ''/*'') text k \<and> int k + 2 \<le> col \<and>
          (\<forall>j. marker_at (js ''*/'') text j \<and> int j + 2 \<le> col \<longrightarrow> j < k))"
  by (rule isInComment_iff)

theorem isInComment_line_local_witness:
  "isInComment scenarioC 4 \<and> marker_at (js ''//'') scenarioC 0 \<and> int 0 + 2 \<le> (4::int)"
proof -
  have "marker_at (js ''//'') scenarioC 0 \<and> int 0 + 2 \<le> (4::int)"
    by (simp add: marker_at_def scenarioC_def js_def)
  with isInComment_line_local[of scenarioC 4] show ?thesis by blast
qed

text \<open>
  C6, as stated: a match placed before \<open>//\<close> on its line produces an issue. On the line
  \<open>/* eval(x); // c\<close> the loop visits the match of the \<open>eval\<close> rule at index 3, in
  column 4; \<open>//\<close> first occurs at index 12, behind the match; and no issue is produced.
\<close>

theorem match_before_line_comment_counterexample:
  "visits mixedLine ((pattern eval_rule)\<lparr>lastIndex := 0\<rparr>) 3 \<and>
   column_of mixedLine 3 = 4 \<and>
   indexOf mixedLine (js ''//'') = 12 \<and>
   findPatternMatches mixedLine (js_split mixedLine 10) eval_rule = Some ([], eval_rule)"
  using visits_first_match[OF match_mixedLine(1)] position_mixedLine(2,5)
    findPatternMatches_eval_rule(2)
  by (simp add: eval_rule_pattern)

text \<open>
  C6, amended. For a match that the loop visits, at the line and column it computes:
  when \<open>//\<close> starts before the match's column on that line, no issue of the rule has
  that line and column; when \<open>//\<close> does not start before the match's column and the
  line has no \<open>/*\<close> before the match's column that is still open there, an issue of the
  rule with that line and column is produced. A file that contains only the line
  \<open>// eval(userInput);\<close> yields no issue, on every engine.
\<close>

theorem comment_suppression:
  assumes "findPatternMatches content lines rule = Some (found, rule')"
    and "visits content ((pattern rule)\<lparr>lastIndex := 0\<rparr>) index"
  shows "((\<exists>k. marker_at (js ''//'') (lineContent_of content lines index) k \<and>
               int k + 2 \<le> column_of content index) \<longrightarrow>
          \<not> (\<exists>i \<in> set found. line i = lineNumber_of content index \<and>
                                column i = column_of content index)) \<and>
         (\<not> (\<exists>k. marker_at (js ''//'') (lineContent_of content lines index) k \<and>
                 int k + 2 \<le> column_of content index) \<and>
          \<not> (\<exists>k. marker_at (js ''/*'') (lineContent_of content lines index) k \<and>
                 int k + 2 \<le> column_of content index \<and>
                 (\<forall>j. marker_at (js ''*/'') (lineContent_of content lines index) j \<and>
                      int j + 2 \<le> column_of content index \<longrightarrow> j < k)) \<longrightarrow>
          (\<exists>i \<in> set found. line i = lineNumber_of content index \<and>
                            column i = column_of content index \<and>
                            type i = VulnerabilityPattern.type rule)) \<and>
         scanFile eng (example_world (reads scenarioC)) initializePatterns
           (js ''/w/a.js'') (js ''a.js'') = Some (Inr [], initializePatterns)"
proof (intro conjI impI)
  note found = findPatternMatches_found[OF assms(1)]
  {
    assume a: "\<exists>k. marker_at (js ''//'') (lineContent_of content lines index) k \<and>
               int k + 2 \<le> column_of content index"
    then have sup: "suppressed content lines index"
      unfolding suppressed_def isInComment_iff by blast
    show "\<not> (\<exists>i \<in> set found. line i = lineNumber_of content index \<and>
                                column i = column_of content index)"
    proof
      assume "\<exists>i \<in> set found. line i = lineNumber_of content index \<and>
                                column i = column_of content index"
      then obtain j where j: "\<not> suppressed content lines j"
        "lineNumber_of content j = lineNumber_of content index"
        "column_of content j = column_of content index"
        unfolding found by auto
      from j(2) have "lineContent_of content lines j = lineContent_of content lines index"
        by (simp add: lineContent_of_def)
      with j(1,3) sup show False by (simp add: suppressed_def)
    qed
  }
  {
    assume "\<not> (\<exists>k. marker_at (js ''//'') (lineContent_of content lines index) k \<and>
                 int k + 2 \<le> column_of content index) \<and>
          \<not> (\<exists>k. marker_at (js ''/*'') (lineContent_of content lines index) k \<and>
                 int k + 2 \<le> column_of content index \<and>
                 (\<forall>j. marker_at (js ''*/'') (lineContent_of content lines index) j \<and>
                      int j + 2 \<le> column_of content index \<longrightarrow> j < k))"
    then have "\<not> suppressed content lines index"
      unfolding suppressed_def isInComment_iff by blast
    with assms(2) have "mk_issue content lines rule index \<in> set found"
      unfolding found by blast
    then show "\<exists>i \<in> set found. line i = lineNumber_of content index \<and>
                            column i = column_of content index \<and>
                            type i = VulnerabilityPattern.type rule"
      by (intro bexI[of _ "mk_issue content lines rule index"]) simp_all
  }
  show "scanFile eng (example_world (reads scenarioC)) initializePatterns
           (js ''/w/a.js'') (js ''a.js'') = Some (Inr [], initializePatterns)"
    by (rule scanFile_worldC)
qed

theorem comment_suppression_witness:
  "findPatternMatches scenarioC (js_split scenarioC 10) eval_rule = Some ([], eval_rule) \<and>
   visits scenarioC ((pattern eval_rule)\<lparr>lastIndex := 0\<rparr>) 3 \<and>
   marker_at (js ''//'') (lineContent_of scenarioC (js_split scenarioC 10) 3) 0 \<and>
   int 0 + 2 \<le> column_of scenarioC 3 \<and>
   \<not> (\<exists>i \<in> set ([]::IssueNoPath list). line i = lineNumber_of scenarioC 3 \<and> column i = column_of scenarioC 3) \<and>
   findPatternMatches tailComment (js_split tailComment 10) eval_rule =
     Some ([mk_issue tailComment (js_split tailComment 10) eval_rule 0], eval_rule) \<and>
   visits tailComment ((pattern eval_rule)\<lparr>lastIndex := 0\<rparr>) 0 \<and>
   column_of tailComment 0 = 1 \<and>
   (\<exists>i \<in> set [mk_issue tailComment (js_split tailComment 10) eval_rule 0].
      line i = lineNumber_of tailComment 0 \<and> column i = column_of tailComment 0 \<and>
      type i = VulnerabilityPattern.type eval_rule)"
proof -
  have vC: "visits scenarioC ((pattern eval_rule)\<lparr>lastIndex := 0\<rparr>) 3"
    using visits_first_match[OF matchC_eval_re] by (simp add: eval_rule_pattern)
  have vT: "visits tailComment ((pattern eval_rule)\<lparr>lastIndex := 0\<rparr>) 0"
    using visits_first_match[OF match_tailComment(1)] by (simp add: eval_rule_pattern)
  have mC: "marker_at (js ''//'') (lineContent_of scenarioC (js_split scenarioC 10) 3) 0 \<and>
      int 0 + 2 \<le> column_of scenarioC 3"
    by (simp add: position_scenarioC marker_at_def) (simp add: scenarioC_def js_def)
  have nT: "\<not> (\<exists>k. marker_at (js ''//'') (lineContent_of tailComment (js_split tailComment 10) 0) k \<and>
                 int k + 2 \<le> column_of tailComment 0)"
       "\<not> (\<exists>k. marker_at (js ''/*'') (lineContent_of tailComment (js_split tailComment 10) 0) k \<and>
                 int k + 2 \<le> column_of tailComment 0 \<and>
                 (\<forall>j. marker_at (js ''*/'') (lineContent_of tailComment (js_split tailComment 10) 0) j \<and>
                      int j + 2 \<le> column_of tailComment 0 \<longrightarrow> j < k))"
    by (simp_all add: position_tailComment)
  have "\<exists>k. marker_at (js ''//'') (lineContent_of scenarioC (js_split scenarioC 10) 3) k \<and>
               int k + 2 \<le> column_of scenarioC 3"
    using mC by (intro exI[of _ 0])
  with comment_suppression[OF findPatternMatches_eval_rule(4) vC, THEN conjunct1]
  have a: "\<not> (\<exists>i \<in> set ([]::IssueNoPath list). line i = lineNumber_of scenarioC 3 \<and> column i = column_of scenarioC 3)"
    by (rule mp)
  from comment_suppression[OF findPatternMatches_eval_rule(3) vT, THEN conjunct2, THEN conjunct1]
  have b: "\<exists>i \<in> set [mk_issue tailComment (js_split tailComment 10) eval_rule 0].
      line i = lineNumber_of tailComment 0 \<and> column i = column_of tailComment 0 \<and>
      type i = VulnerabilityPattern.type eval_rule"
    by (rule mp) (intro conjI nT)
  from a b vC vT mC findPatternMatches_eval_rule(3,4) position_tailComment(2)
  show ?thesis by (intro conjI) (erule conjunct1 conjunct2 | assumption)+
qed

section \<open>Scanning twice\<close>

lemma scanWorkspace_from_scanFiles:
  assumes "scanFiles eng world
        (filter (\<lambda>f. isJsTs eng world (ProjectFile.filePath f)) (collectProjectFiles world))
        [] 0 (vulnerabilityPatterns this) = Some (found, scanned, rules')"
  shows "scanWorkspace eng this world =
    Some (\<lparr>issues = found, filesScanned = scanned, totalIssues = int (length found),
        criticalCount = int (length (filter (\<lambda>i. severity i = critical) found)),
        highCount = int (length (filter (\<lambda>i. severity i = high) found)),
        mediumCount = int (length (filter (\<lambda>i. severity i = medium) found)),
        lowCount = int (length (filter (\<lambda>i. severity i = low) found)),
        scanDuration = endTime world - startTime world, timestamp = now world\<rparr>,
      this\<lparr>vulnerabilityPatterns := rules'\<rparr>)"
  using assms by (simp add: scanWorkspace_def isJsTs_def Let_def)

lemma scanFile_cong:
  "readFile world2 fp = readFile world fp \<Longrightarrow>
   scanFile eng world2 rules fp rp = scanFile eng world rules fp rp"
  by (simp add: scanFile_def)

lemma scanFiles_cong:
  "\<forall>f \<in> set files. readFile world2 (ProjectFile.filePath f) = readFile world (ProjectFile.filePath f) \<Longrightarrow>
   scanFiles eng world2 files acc n rules = scanFiles eng world files acc n rules"
proof (induction files arbitrary: acc n rules)
  case Nil
  then show ?case by simp
next
  case (Cons pf files)
  from Cons.prems
  have "readFile world2 (ProjectFile.filePath pf) = readFile world (ProjectFile.filePath pf)"
    by simp
  then have sf: "scanFile eng world2 rules (ProjectFile.filePath pf) (ProjectFile.relativePath pf) =
      scanFile eng world rules (ProjectFile.filePath pf) (ProjectFile.relativePath pf)"
    by (rule scanFile_cong)
  from Cons.prems have "\<forall>f \<in> set files.
      readFile world2 (ProjectFile.filePath f) = readFile world (ProjectFile.filePath f)" by simp
  note ih = Cons.IH[OF this]
  show ?case unfolding scanFiles.simps sf ih ..
qed

text \<open>
  A second scan of the same files, by any scanner that holds the rules of the first up
  to the lastIndex of their regular-expression objects, returns what the first scan
  returned, the two times aside.
\<close>

lemma rescan_same_rules:
  assumes "scanWorkspace eng this world = Some (result, this')"
    and "collectProjectFiles world2 = collectProjectFiles world"
    and "readFile world2 = readFile world"
    and "extname world2 = extname world"
  shows "map reset (vulnerabilityPatterns this') = map reset (vulnerabilityPatterns this) \<and>
         (\<forall>that. map reset (vulnerabilityPatterns that) = map reset (vulnerabilityPatterns this) \<longrightarrow>
            (\<exists>result2 that'. scanWorkspace eng that world2 = Some (result2, that') \<and>
               issues result2 = issues result \<and>
               result2 = result\<lparr>scanDuration := endTime world2 - startTime world2,
                                 timestamp := now world2\<rparr>))"
  using assms(1)
proof (cases rule: scanWorkspace_cases)
  case (1 found scanned rules')
  let ?files = "filter (\<lambda>f. isJsTs eng world (ProjectFile.filePath f)) (collectProjectFiles world)"
  have files2: "filter (\<lambda>f. isJsTs eng world2 (ProjectFile.filePath f)) (collectProjectFiles world2) = ?files"
    using assms(2,4) by (simp add: isJsTs_def)
  have rf: "\<forall>f \<in> set ?files. readFile world2 (ProjectFile.filePath f) = readFile world (ProjectFile.filePath f)"
    using assms(3) by simp
  from scanFiles_independent[OF 1(1) refl rf]
  have keep: "map reset rules' = map reset (vulnerabilityPatterns this)" by blast
  have again: "\<exists>result2 that'. scanWorkspace eng that world2 = Some (result2, that') \<and>
               issues result2 = issues result \<and>
               result2 = result\<lparr>scanDuration := endTime world2 - startTime world2,
                                 timestamp := now world2\<rparr>"
    if "map reset (vulnerabilityPatterns that) = map reset (vulnerabilityPatterns this)" for that
  proof -
    from scanFiles_independent[OF 1(1) that rf] obtain rules2 where
      "scanFiles eng world2 ?files [] 0 (vulnerabilityPatterns that) = Some (found, scanned, rules2)"
      by blast
    with files2 have "scanFiles eng world2
        (filter (\<lambda>f. isJsTs eng world2 (ProjectFile.filePath f)) (collectProjectFiles world2))
        [] 0 (vulnerabilityPatterns that) = Some (found, scanned, rules2)" by simp
    from scanWorkspace_from_scanFiles[OF this] 1(2) show ?thesis by simp
  qed
  from keep again 1(3) show ?thesis by simp
qed


text \<open>With rules that all make progress, every scan returns.\<close>

lemma progressing_reset [simp]: "progressing (reset rule) = progressing rule"
  by (simp add: progressing_def)

lemma progressing_same_reset:
  assumes "map reset rules2 = map reset rules" and "\<forall>rule \<in> set rules. progressing rule"
  shows "\<forall>rule \<in> set rules2. progressing rule"
proof
  fix rule assume "rule \<in> set rules2"
  then have "reset rule \<in> set (map reset rules)" unfolding assms(1)[symmetric] by simp
  then obtain rule0 where r0: "rule0 \<in> set rules" "reset rule0 = reset rule" by auto
  with assms(2) have "progressing (reset rule)" using progressing_reset[of rule0] by simp
  then show "progressing rule" by simp
qed

lemma catalog_progressing: "\<forall>rule \<in> set initializePatterns. progressing rule"
  using catalog_progress by (simp add: progressing_def)

lemma scanRules_total:
  "\<forall>rule \<in> set rules. progressing rule \<Longrightarrow>
   \<exists>found rules'. scanRules eng content lines fp rp rules acc = Some (found, rules')"
proof (induction rules arbitrary: acc)
  case Nil
  then show ?case by simp
next
  case (Cons rule rules)
  from Cons.prems have "progressing rule" by simp
  then obtain ms where ms: "findPatternMatches content lines rule = Some (ms, reset rule)"
    using findPatternMatches_terminates[of rule content lines] by (auto simp: progressing_def)
  from Cons.prems have "\<forall>rule \<in> set rules. progressing rule" by simp
  from Cons.IH[OF this, of "acc @ map (with_paths fp rp) ms"] obtain found rules1 where
    "scanRules eng content lines fp rp rules (acc @ map (with_paths fp rp) ms) =
       Some (found, rules1)" by blast
  with ms show ?case by (simp add: scanRules_Cons del: scanRules.simps(2))
qed

lemma scanFile_total:
  assumes "\<forall>rule \<in> set rules. progressing rule"
  shows "\<exists>found rules'. scanFile eng world rules fp rp = Some (Inr found, rules') \<and>
           map reset rules' = map reset rules"
proof (cases "readFile world fp")
  case (Inl e)
  then show ?thesis by (simp add: scanFile_def)
next
  case (Inr content)
  from scanRules_total[OF assms, of eng content "js_split content 10" fp rp "[]"]
  obtain found rules' where
    run: "scanRules eng content (js_split content 10) fp rp rules [] = Some (found, rules')"
    by blast
  from scanRules_reset[OF run] run Inr show ?thesis by (simp add: scanFile_def)
qed

lemma scanFiles_total:
  "\<forall>rule \<in> set rules. progressing rule \<Longrightarrow>
   \<exists>found n' rules'. scanFiles eng world files acc n rules = Some (found, n', rules')"
proof (induction files arbitrary: acc n rules)
  case Nil
  then show ?case by simp
next
  case (Cons pf files)
  from scanFile_total[OF Cons.prems, of eng world "ProjectFile.filePath pf" "ProjectFile.relativePath pf"]
  obtain fileIssues rules1 where
    sf: "scanFile eng world rules (ProjectFile.filePath pf) (ProjectFile.relativePath pf) =
           Some (Inr fileIssues, rules1)"
    and r1: "map reset rules1 = map reset rules" by blast
  from progressing_same_reset[OF r1 Cons.prems]
  have p1: "\<forall>rule \<in> set rules1. progressing rule" .
  from Cons.IH[OF p1, of "acc @ fileIssues" "n + 1"] Cons.IH[OF p1, of acc n] sf
  show ?case by simp
qed

lemma scanWorkspace_total:
  assumes "map reset (vulnerabilityPatterns this) = map reset initializePatterns"
  shows "\<exists>result this'. scanWorkspace eng this world = Some (result, this')"
proof -
  from progressing_same_reset[OF assms catalog_progressing]
  have "\<forall>rule \<in> set (vulnerabilityPatterns this). progressing rule" .
  from scanFiles_total[OF this] obtain found n' rules' where
    "scanFiles eng world
        (filter (\<lambda>f. isJsTs eng world (ProjectFile.filePath f)) (collectProjectFiles world))
        [] 0 (vulnerabilityPatterns this) = Some (found, n', rules')" by blast
  from scanWorkspace_from_scanFiles[OF this] show ?thesis by blast
qed

text \<open>
  C8. A scanner that holds the rules of the catalog, whatever the lastIndex of their
  regular-expression objects, returns a result for every workspace, and the scanner it
  leaves holds the rules of the catalog again. A scan of the same unchanged files by any
  such scanner, in particular by the one the first scan leaves, returns the same issues
  in the same order and the same counts; only scanDuration and timestamp may differ.
  Both scans run on the same engine, whatever it is.
\<close>

theorem rescan_same_result:
  assumes "map reset (vulnerabilityPatterns this) = map reset initializePatterns"
    and "collectProjectFiles world2 = collectProjectFiles world"
    and "readFile world2 = readFile world"
    and "extname world2 = extname world"
  shows "\<exists>result this'.
           scanWorkspace eng this world = Some (result, this') \<and>
           map reset (vulnerabilityPatterns this') = map reset initializePatterns \<and>
           (\<forall>that. map reset (vulnerabilityPatterns that) = map reset initializePatterns \<longrightarrow>
              (\<exists>result2 that'. scanWorkspace eng that world2 = Some (result2, that') \<and>
                 issues result2 = issues result \<and>
                 result2 = result\<lparr>scanDuration := endTime world2 - startTime world2,
                                   timestamp := now world2\<rparr>))"
proof -
  from scanWorkspace_total[OF assms(1)] obtain result this' where
    run: "scanWorkspace eng this world = Some (result, this')" by blast
  from rescan_same_rules[OF run assms(2,3,4)] assms(1) run show ?thesis by simp
qed

theorem rescan_same_result_witness:
  "map reset (vulnerabilityPatterns new_SecurityScanner) = map reset initializePatterns \<and>
   scanWorkspace example_engine new_SecurityScanner (example_world (reads scenarioA)) =
     Some (resultA, new_SecurityScanner) \<and>
   (\<exists>result2 that'.
      scanWorkspace example_engine new_SecurityScanner
        ((example_world (reads scenarioA))\<lparr>startTime := 7, endTime := 9, now := 200\<rparr>) =
        Some (result2, that') \<and>
      issues result2 = [issueA] \<and>
      result2 = resultA\<lparr>scanDuration := 2, timestamp := 200\<rparr>)"
proof -
  let ?w = "example_world (reads scenarioA)"
  let ?w2 = "?w\<lparr>startTime := 7, endTime := 9, now := 200\<rparr>"
  have r: "map reset (vulnerabilityPatterns new_SecurityScanner) = map reset initializePatterns"
    by (simp add: new_SecurityScanner_def)
  from rescan_same_result[OF r, of ?w2 ?w example_engine] obtain result this' where
    a: "scanWorkspace example_engine new_SecurityScanner ?w = Some (result, this')"
    and b: "\<forall>that. map reset (vulnerabilityPatterns that) = map reset initializePatterns \<longrightarrow>
              (\<exists>result2 that'. scanWorkspace example_engine that ?w2 = Some (result2, that') \<and>
                 issues result2 = issues result \<and>
                 result2 = result\<lparr>scanDuration := endTime ?w2 - startTime ?w2,
                                   timestamp := now ?w2\<rparr>)"
    by auto
  from a scan_worldA have res: "result = resultA" by simp
  from b[rule_format, OF r] res
  have "\<exists>result2 that'. scanWorkspace example_engine new_SecurityScanner ?w2 = Some (result2, that') \<and>
      issues result2 = [issueA] \<and>
      result2 = resultA\<lparr>scanDuration := 2, timestamp := 200\<rparr>"
    by (simp add: resultA_def)
  with r scan_worldA show ?thesis by (intro conjI)
qed

section \<open>The extension filter\<close>

lemma filter_removeAll_other:
  "\<not> P x \<Longrightarrow> filter P (removeAll x xs) = filter P xs"
  by (induction xs) auto

lemma counted_cong:
  assumes "readFile world2 (ProjectFile.filePath f) = readFile world (ProjectFile.filePath f)"
  shows "counted eng world2 rules f = counted eng world rules f"
  by (simp add: counted_def scanFile_cong[OF assms])

text \<open>
  C9. A collected file whose lowercased extension is none of .js, .jsx, .ts, .tsx, .mjs
  and .cjs is not scanned. filesScanned is the number of collected files with one of
  these extensions that the loop counts, which are those whose issues \<open>scanFile\<close> returns
  and \<open>push\<close> adds without a RangeError; so it is at most the number of collected files
  with one of these extensions, and it is that number on an engine in which the \<open>push\<close>
  of a file's issues never throws. Every issue carries the path of a file with one of
  these extensions, and the scan returns the same result and leaves the same scanner
  whatever the content of a file with another extension, and also when such a file is
  taken out of the collection.
\<close>

theorem extension_filter:
  assumes "scanWorkspace eng this world = Some (result, this')"
  shows "filesScanned result =
           int (length (filter (\<lambda>f. isJsTs eng world (ProjectFile.filePath f) \<and>
                                     counted eng world (vulnerabilityPatterns this) f)
                          (collectProjectFiles world))) \<and>
         0 \<le> filesScanned result \<and>
         filesScanned result \<le>
           int (length (filter (\<lambda>f. isJsTs eng world (ProjectFile.filePath f))
                          (collectProjectFiles world))) \<and>
         ((\<forall>n. \<not> spreadThrows eng push_fileIssues n) \<longrightarrow>
          filesScanned result =
            int (length (filter (\<lambda>f. isJsTs eng world (ProjectFile.filePath f))
                           (collectProjectFiles world)))) \<and>
         (\<forall>i \<in> set (issues result). isJsTs eng world (filePath i)) \<and>
         (\<forall>path outcome. \<not> isJsTs eng world path \<longrightarrow>
            scanWorkspace eng this (world\<lparr>readFile := (readFile world)(path := outcome)\<rparr>) =
              Some (result, this')) \<and>
         (\<forall>f. \<not> isJsTs eng world (ProjectFile.filePath f) \<longrightarrow>
            scanWorkspace eng this
              (world\<lparr>collectProjectFiles := removeAll f (collectProjectFiles world)\<rparr>) =
              Some (result, this'))"
  using assms
proof (cases rule: scanWorkspace_cases)
  case (1 found scanned rules')
  let ?P = "\<lambda>f. isJsTs eng world (ProjectFile.filePath f)"
  let ?C = "counted eng world (vulnerabilityPatterns this)"
  let ?files = "filter ?P (collectProjectFiles world)"
  have both: "filter (\<lambda>f. ?P f \<and> ?C f) (collectProjectFiles world) = filter ?C ?files"
    by (simp add: conj_commute)
  from scanFiles_count[OF 1(1)] 1(2)
  have count: "filesScanned result =
      int (length (filter (\<lambda>f. ?P f \<and> ?C f) (collectProjectFiles world)))"
    unfolding both by simp
  have lower: "0 \<le> filesScanned result" unfolding count by simp
  have "length (filter ?C ?files) \<le> length ?files" by (rule length_filter_le)
  then have upper: "filesScanned result \<le> int (length ?files)"
    unfolding count both by simp
  have exact: "filesScanned result = int (length ?files)"
    if "\<forall>n. \<not> spreadThrows eng push_fileIssues n"
    unfolding count both counted_never_throws[OF 1(1) that] ..
  have paths: "isJsTs eng world (filePath i)" if "i \<in> set (issues result)" for i
  proof -
    from that 1(2) have "i \<in> set found" by simp
    from scanFiles_issues[OF 1(1) this] obtain f where
      "f \<in> set ?files" "filePath i = ProjectFile.filePath f" by auto
    then show ?thesis by simp
  qed
  have content: "scanWorkspace eng this (world\<lparr>readFile := (readFile world)(path := outcome)\<rparr>) =
      Some (result, this')" if "\<not> isJsTs eng world path" for path outcome
  proof -
    let ?w = "world\<lparr>readFile := (readFile world)(path := outcome)\<rparr>"
    have same: "filter (\<lambda>f. isJsTs eng ?w (ProjectFile.filePath f)) (collectProjectFiles ?w) = ?files"
      by (simp add: isJsTs_def)
    have "\<forall>f \<in> set ?files. readFile ?w (ProjectFile.filePath f) = readFile world (ProjectFile.filePath f)"
      using that by auto
    from scanFiles_cong[OF this] 1(1)
    have "scanFiles eng ?w (filter (\<lambda>f. isJsTs eng ?w (ProjectFile.filePath f)) (collectProjectFiles ?w))
        [] 0 (vulnerabilityPatterns this) = Some (found, scanned, rules')"
      unfolding same by simp
    from scanWorkspace_from_scanFiles[OF this] 1(2,3) show ?thesis by simp
  qed
  have removed: "scanWorkspace eng this
      (world\<lparr>collectProjectFiles := removeAll f (collectProjectFiles world)\<rparr>) =
      Some (result, this')" if "\<not> isJsTs eng world (ProjectFile.filePath f)" for f
  proof -
    let ?w = "world\<lparr>collectProjectFiles := removeAll f (collectProjectFiles world)\<rparr>"
    have same: "filter (\<lambda>f. isJsTs eng ?w (ProjectFile.filePath f)) (collectProjectFiles ?w) = ?files"
      using filter_removeAll_other[of ?P f, OF that] by (simp add: isJsTs_def)
    have "\<forall>f \<in> set ?files. readFile ?w (ProjectFile.filePath f) = readFile world (ProjectFile.filePath f)"
      by simp
    from scanFiles_cong[OF this] 1(1)
    have "scanFiles eng ?w (filter (\<lambda>f. isJsTs eng ?w (ProjectFile.filePath f)) (collectProjectFiles ?w))
        [] 0 (vulnerabilityPatterns this) = Some (found, scanned, rules')"
      unfolding same by simp
    from scanWorkspace_from_scanFiles[OF this] 1(2,3) show ?thesis by simp
  qed
  show ?thesis
  proof (intro conjI ballI allI impI)
    show "filesScanned result =
           int (length (filter (\<lambda>f. ?P f \<and> ?C f) (collectProjectFiles world)))"
      by (rule count)
    show "0 \<le> filesScanned result" by (rule lower)
    show "filesScanned result \<le> int (length ?files)" by (rule upper)
    show "filesScanned result = int (length ?files)"
      if "\<forall>n. \<not> spreadThrows eng push_fileIssues n" using that by (rule exact)
    show "isJsTs eng world (filePath i)" if "i \<in> set (issues result)" for i
      using that by (rule paths)
    show "scanWorkspace eng this (world\<lparr>readFile := (readFile world)(path := outcome)\<rparr>) =
      Some (result, this')" if "\<not> isJsTs eng world path" for path outcome
      using that by (rule content)
    show "scanWorkspace eng this
      (world\<lparr>collectProjectFiles := removeAll f (collectProjectFiles world)\<rparr>) =
      Some (result, this')" if "\<not> isJsTs eng world (ProjectFile.filePath f)" for f
      using that by (rule removed)
  qed
qed

theorem extension_filter_witness:
  "scanWorkspace example_engine new_SecurityScanner (example_world (reads scenarioA)) =
     Some (resultA, new_SecurityScanner) \<and>
   \<not> isJsTs example_engine (example_world (reads scenarioA)) (js ''/w/notes.txt'') \<and>
   length (collectProjectFiles (example_world (reads scenarioA))) = 2 \<and>
   filesScanned resultA = 1 \<and>
   filesScanned resultA =
     int (length (filter
       (\<lambda>f. isJsTs example_engine (example_world (reads scenarioA)) (ProjectFile.filePath f) \<and>
            counted example_engine (example_world (reads scenarioA))
              (vulnerabilityPatterns new_SecurityScanner) f)
       (collectProjectFiles (example_world (reads scenarioA))))) \<and>
   scanWorkspace example_engine new_SecurityScanner
     ((example_world (reads scenarioA))
        \<lparr>readFile := (readFile (example_world (reads scenarioA)))
                        (js ''/w/notes.txt'' := Inr scenarioA)\<rparr>) =
     Some (resultA, new_SecurityScanner) \<and>
   scanWorkspace example_engine new_SecurityScanner
     ((example_world (reads scenarioA))
        \<lparr>collectProjectFiles :=
           removeAll \<lparr>ProjectFile.filePath = js ''/w/notes.txt'', relativePath = js ''notes.txt''\<rparr>
             (collectProjectFiles (example_world (reads scenarioA)))\<rparr>) =
     Some (resultA, new_SecurityScanner) \<and>
   (\<forall>n. \<not> spreadThrows unbounded_engine push_fileIssues n) \<and>
   scanWorkspace unbounded_engine new_SecurityScanner (example_world (reads scenarioA)) =
     Some (resultA, new_SecurityScanner) \<and>
   filesScanned resultA =
     int (length (filter
       (\<lambda>f. isJsTs unbounded_engine (example_world (reads scenarioA)) (ProjectFile.filePath f))
       (collectProjectFiles (example_world (reads scenarioA))))) \<and>
   scanWorkspace tight_engine new_SecurityScanner (example_world (reads scenarioA)) =
     Some (resultA\<lparr>issues := [], filesScanned := 0, totalIssues := 0, criticalCount := 0\<rparr>,
           new_SecurityScanner) \<and>
   (0::int) =
     int (length (filter
       (\<lambda>f. isJsTs tight_engine (example_world (reads scenarioA)) (ProjectFile.filePath f) \<and>
            counted tight_engine (example_world (reads scenarioA))
              (vulnerabilityPatterns new_SecurityScanner) f)
       (collectProjectFiles (example_world (reads scenarioA)))))"
proof -
  let ?w = "example_world (reads scenarioA)"
  let ?notes = "\<lparr>ProjectFile.filePath = js ''/w/notes.txt'', relativePath = js ''notes.txt''\<rparr>"
  note t = extension_filter[OF scan_worldA]
  have other: "\<not> isJsTs example_engine ?w (js ''/w/notes.txt'')"
    by (rule example_extensions(2)) simp
  have other': "\<not> isJsTs example_engine ?w (ProjectFile.filePath ?notes)"
    using other by simp
  have two: "length (collectProjectFiles ?w) = 2"
    by (simp add: example_world_def example_files_def)
  have one: "filesScanned resultA = 1" by (simp add: resultA_def)
  note count = t[THEN conjunct1]
  from t[THEN conjunct2, THEN conjunct2, THEN conjunct2, THEN conjunct2, THEN conjunct2,
      THEN conjunct1, rule_format, OF other, of "Inr scenarioA"]
  have content: "scanWorkspace example_engine new_SecurityScanner
     (?w\<lparr>readFile := (readFile ?w)(js ''/w/notes.txt'' := Inr scenarioA)\<rparr>) =
     Some (resultA, new_SecurityScanner)" .
  from t[THEN conjunct2, THEN conjunct2, THEN conjunct2, THEN conjunct2, THEN conjunct2,
      THEN conjunct2, rule_format, OF other']
  have removed: "scanWorkspace example_engine new_SecurityScanner
     (?w\<lparr>collectProjectFiles := removeAll ?notes (collectProjectFiles ?w)\<rparr>) =
     Some (resultA, new_SecurityScanner)" .
  have never: "\<forall>n. \<not> spreadThrows unbounded_engine push_fileIssues n" by simp
  have unb: "scanWorkspace unbounded_engine new_SecurityScanner ?w =
     Some (resultA, new_SecurityScanner)"
    by (rule scan_worldA_on) simp_all
  from extension_filter[OF unb, THEN conjunct2, THEN conjunct2, THEN conjunct2, THEN conjunct1]
    never
  have exact: "filesScanned resultA =
     int (length (filter (\<lambda>f. isJsTs unbounded_engine ?w (ProjectFile.filePath f))
                    (collectProjectFiles ?w)))"
    by (rule mp)
  have tight: "scanWorkspace tight_engine new_SecurityScanner ?w =
     Some (resultA\<lparr>issues := [], filesScanned := 0, totalIssues := 0, criticalCount := 0\<rparr>,
           new_SecurityScanner)"
    by (rule scan_worldA_thrown) simp_all
  have "filesScanned (resultA\<lparr>issues := [], filesScanned := 0, totalIssues := 0,
      criticalCount := 0\<rparr>) = 0" by simp
  with extension_filter[OF tight, THEN conjunct1]
  have none: "(0::int) =
     int (length (filter
       (\<lambda>f. isJsTs tight_engine ?w (ProjectFile.filePath f) \<and>
            counted tight_engine ?w (vulnerabilityPatterns new_SecurityScanner) f)
       (collectProjectFiles ?w)))"
    by simp
  from scan_worldA other two one count content removed never unb exact tight none
  show ?thesis by (intro conjI)
qed

section \<open>Kinds of the issues\<close>

text \<open>
  C10. For every scan result of a scanner that holds the rules of the catalog, whatever
  the lastIndex of their regular-expression objects: every issue has the kind of a rule
  of the catalog, no rule of the catalog has the kind xxe-vulnerability,
  insecure-deserialization or csrf-vulnerability, and so no issue has one of these kinds.
\<close>

theorem reserved_kinds_never_reported:
  assumes "scanWorkspace eng this world = Some (result, this')"
    and "map reset (vulnerabilityPatterns this) = map reset initializePatterns"
  shows "(\<forall>i \<in> set (issues result).
            (\<exists>rule \<in> set initializePatterns. type i = VulnerabilityPattern.type rule) \<and>
            type i \<notin> {xxe_vulnerability, insecure_deserialization, csrf_vulnerability}) \<and>
         (\<forall>rule \<in> set initializePatterns.
            VulnerabilityPattern.type rule \<notin>
              {xxe_vulnerability, insecure_deserialization, csrf_vulnerability})"
proof -
  have cat: "VulnerabilityPattern.type rule \<notin>
      {xxe_vulnerability, insecure_deserialization, csrf_vulnerability}"
    if "rule \<in> set initializePatterns" for rule
  proof -
    from that have "VulnerabilityPattern.type rule \<in> VulnerabilityPattern.type ` set initializePatterns"
      by simp
    then show ?thesis unfolding catalog_kinds by auto
  qed
  have iss: "\<exists>rule \<in> set initializePatterns. type i = VulnerabilityPattern.type rule"
    if "i \<in> set (issues result)" for i
    using assms(1)
  proof (cases rule: scanWorkspace_cases)
    case (1 found scanned rules')
    from that 1(2) have "i \<in> set found" by simp
    from scanFiles_issues[OF 1(1) this] obtain rule where
      r: "rule \<in> set (vulnerabilityPatterns this)" "type i = VulnerabilityPattern.type rule"
      by auto
    from r(1) have "reset rule \<in> set (map reset initializePatterns)"
      unfolding assms(2)[symmetric] by simp
    then obtain rule0 where "rule0 \<in> set initializePatterns" "reset rule0 = reset rule" by auto
    with r(2) show ?thesis
      using reset_fields(1)[of rule0] reset_fields(1)[of rule]
      by (intro bexI[of _ rule0]) simp_all
  qed
  show ?thesis
  proof (intro conjI ballI)
    fix i assume i: "i \<in> set (issues result)"
    from iss[OF i] show "\<exists>rule \<in> set initializePatterns. type i = VulnerabilityPattern.type rule" .
    from iss[OF i] obtain rule where "rule \<in> set initializePatterns"
      "type i = VulnerabilityPattern.type rule" by blast
    with cat[of rule]
    show "type i \<notin> {xxe_vulnerability, insecure_deserialization, csrf_vulnerability}"
      by simp
  next
    fix rule assume "rule \<in> set initializePatterns"
    then show "VulnerabilityPattern.type rule \<notin>
        {xxe_vulnerability, insecure_deserialization, csrf_vulnerability}" by (rule cat)
  qed
qed

theorem reserved_kinds_never_reported_witness:
  "scanWorkspace example_engine new_SecurityScanner (example_world (reads scenarioA)) =
     Some (resultA, new_SecurityScanner) \<and>
   map reset (vulnerabilityPatterns new_SecurityScanner) = map reset initializePatterns \<and>
   issues resultA = [issueA] \<and>
   type issueA \<notin> {xxe_vulnerability, insecure_deserialization, csrf_vulnerability}"
proof -
  have r: "map reset (vulnerabilityPatterns new_SecurityScanner) = map reset initializePatterns"
    by (simp add: new_SecurityScanner_def)
  have i: "issues resultA = [issueA]" by (simp add: resultA_def)
  have "issueA \<in> set (issues resultA)" by (simp add: i)
  with reserved_kinds_never_reported[OF scan_worldA r, THEN conjunct1]
  have "type issueA \<notin> {xxe_vulnerability, insecure_deserialization, csrf_vulnerability}"
    by blast
  with scan_worldA r i show ?thesis by (intro conjI)
qed

end
